theory Spec2Isabelle
  imports Main "HOL-Library.Sublist"
begin

section \<open>The throttle package: data\<close>

text \<open>
  \<^verbatim>\<open>throttle.go\<close> exists in two variants. The first one takes an
  \<^verbatim>\<open>*http.Request\<close> and derives the client from its remote address, the second one
  takes the client as a string. Both share the \<^verbatim>\<open>Throttle\<close> struct and \<^verbatim>\<open>New\<close>.

  A \<^verbatim>\<open>time.Duration\<close> is a signed count of nanoseconds, and so is a point in time of
  the monotonic clock. A \<^verbatim>\<open>chan struct{}\<close> made by \<^verbatim>\<open>make\<close> is identified by the
  number of channels made before it.
\<close>

type_synonym duration = int

type_synonym time = int

type_synonym chan = nat

text \<open>Of a request, \<^verbatim>\<open>Wait\<close> reads the field \<^verbatim>\<open>RemoteAddr\<close> only.\<close>

record Request =
  RemoteAddr :: string

text \<open>\<^verbatim>\<open>fmt.Errorf("one request per %v allowed", d)\<close>: the only error, carrying a duration.\<close>

datatype error = OneRequestPer duration

record Throttle =
  requestRate :: duration
  tokenChansMutex :: bool
  tokenChans :: "string \<rightharpoonup> chan"

text \<open>\<^verbatim>\<open>var timeout = 5 * time.Second\<close> of the request variant.\<close>

definition Second :: duration where
  "Second = 1000000000"

definition timeout :: duration where
  "timeout = 5 * Second"

text \<open>\<^verbatim>\<open>New\<close>: the rate as given, a zero-valued (unlocked) mutex and an empty map.\<close>

definition New :: "duration \<Rightarrow> Throttle" where
  "New rate = \<lparr>requestRate = rate, tokenChansMutex = False, tokenChans = Map.empty\<rparr>"

section \<open>The client of a request\<close>

text \<open>
  \<^verbatim>\<open>strings.Index\<close> gives the position of the first occurrence of \<^verbatim>\<open>substr\<close> in
  \<^verbatim>\<open>s\<close>, or -1 (here \<open>None\<close>); \<^verbatim>\<open>strings.Contains\<close> tests it; \<^verbatim>\<open>strings.Split\<close>
  cuts \<^verbatim>\<open>s\<close> at every occurrence of a non-empty separator, and into its bytes at an
  empty one (the library cuts into UTF-8 sequences there; \<^verbatim>\<open>ip4\<close> splits at ":").
\<close>

fun Index :: "string \<Rightarrow> string \<Rightarrow> nat option" where
  "Index [] substr = (if substr = [] then Some 0 else None)"
| "Index (c # s) substr =
     (if prefix substr (c # s) then Some 0 else map_option Suc (Index s substr))"

definition Contains :: "string \<Rightarrow> string \<Rightarrow> bool" where
  "Contains s substr = (Index s substr \<noteq> None)"

function Split :: "string \<Rightarrow> string \<Rightarrow> string list" where
  "Split s sep =
     (if sep = [] then map (\<lambda>c. [c]) s
      else case Index s sep of
             None \<Rightarrow> [s]
           | Some m \<Rightarrow> take m s # Split (drop (m + length sep) s) sep)"
  by pat_completeness auto

termination
proof (relation "measure (\<lambda>(s, sep). length s)")
  show "wf (measure (\<lambda>(s, sep). length s))" by simp
next
  fix s sep :: string and m
  assume sep: "sep \<noteq> []" and found: "Index s sep = Some m"
  have "k + length sep \<le> length u" if "Index u sep = Some k" for u k
    using that
  proof (induction u arbitrary: k)
    case Nil
    then show ?case by (simp split: if_splits)
  next
    case (Cons c u)
    show ?case
    proof (cases "prefix sep (c # u)")
      case True
      then have "length sep \<le> length (c # u)" by (rule prefix_length_le)
      with True Cons.prems show ?thesis by simp
    next
      case False
      with Cons.prems obtain j where "Index u sep = Some j" "k = Suc j" by auto
      with Cons.IH show ?thesis by fastforce
    qed
  qed
  with found have "m + length sep \<le> length s" by blast
  moreover from sep have "0 < length sep" by simp
  ultimately have "length s - (m + length sep) < length s" by arith
  then show "((drop (m + length sep) s, sep), (s, sep)) \<in> measure (\<lambda>(s, sep). length s)"
    by simp
qed

declare Split.simps [simp del]

definition ip4 :: "Request \<Rightarrow> string" where
  "ip4 r =
     (if \<not> Contains (RemoteAddr r) '':'' then RemoteAddr r
      else let fields = Split (RemoteAddr r) '':''
           in if length fields < 2 then RemoteAddr r else fields ! 0)"

section \<open>Goroutines, channels and the clock\<close>

text \<open>
  \<^verbatim>\<open>Wait\<close> starts goroutines, blocks on a mutex and on unbuffered channels, and
  sleeps. Its runs are interleavings of the statements of all the calls and goroutines of
  one \<^verbatim>\<open>Throttle\<close>, so the model is a transition system over a world: the throttle,
  the clock, the number of channels made so far, and the goroutines, each at its place in
  the code.

  The two variants of \<^verbatim>\<open>Wait\<close> differ in their argument, and in the duration they
  put into the error.
\<close>

datatype call = WaitRequest Request | WaitClient string

text \<open>
  The places of a call in \<^verbatim>\<open>Wait\<close>, named after the statement that is executed
  next, with the values of the local variables \<^verbatim>\<open>tokenChan\<close> and \<^verbatim>\<open>timeoutChan\<close>
  once they are set:
  \<^verbatim>\<open>
  Lock         t.tokenChansMutex.Lock()
  Lookup       tokenChan, ok := t.tokenChans[client]; if !ok {
  Make             tokenChan = make(chan struct{})
  GoFirst          go func() { tokenChan <- struct{}{} }()
  Store            t.tokenChans[client] = tokenChan }
  Unlock       t.tokenChansMutex.Unlock()
  MakeTimeout  timeoutChan := make(chan struct{})
  GoTimeout    go func() { time.Sleep(t.requestRate); timeoutChan <- struct{}{} }()
  Select       select { case <-tokenChan: ... case <-timeoutChan: return error }
  GoNext           go func() { time.Sleep(t.requestRate); tokenChan <- struct{}{} }()
                   return nil
  \<close>
  \<open>GoNext\<close> is the token branch of the \<^verbatim>\<open>select\<close>; it records when the token was
  received. \<open>Return\<close> holds the time of the return and the error returned: \<open>None\<close> for
  \<^verbatim>\<open>nil\<close> (the request variant returns the request with it), the error of the timeout
  branch otherwise.
\<close>

datatype pc =
    Lock
  | Lookup
  | Make
  | GoFirst chan
  | Store chan
  | Unlock chan
  | MakeTimeout chan
  | GoTimeout chan chan
  | Select chan chan
  | GoNext chan time
  | Return time "error option"

text \<open>
  A goroutine is a call of \<^verbatim>\<open>Wait\<close> (with the time it was called at), or one of the
  function literals: in \<^verbatim>\<open>time.Sleep\<close> until some time at the earliest and then sending
  on a channel, or blocked in the send \<^verbatim>\<open>ch <- struct{}{}\<close>, or ended.
\<close>

datatype goroutine =
    Waiter call time pc
  | Sleeper time chan
  | Sender chan
  | Finished

record world =
  thr :: Throttle
  clock :: time
  nchans :: nat
  goroutines :: "goroutine list"

definition boot :: "duration \<Rightarrow> world" where
  "boot rate = \<lparr>thr = New rate, clock = 0, nchans = 0, goroutines = []\<rparr>"

definition client_of :: "call \<Rightarrow> string" where
  "client_of c = (case c of WaitRequest r \<Rightarrow> ip4 r | WaitClient client \<Rightarrow> client)"

text \<open>
  The error of the timeout branch: the request variant formats the package variable
  \<^verbatim>\<open>timeout\<close>, the client variant \<^verbatim>\<open>t.requestRate\<close>.
\<close>

definition timeout_error :: "Throttle \<Rightarrow> call \<Rightarrow> error" where
  "timeout_error t c =
     (case c of WaitRequest r \<Rightarrow> OneRequestPer timeout
              | WaitClient client \<Rightarrow> OneRequestPer (requestRate t))"

text \<open>
  \<^verbatim>\<open>time.Sleep(d)\<close> returns at once when \<^verbatim>\<open>d\<close> is zero or negative. A goroutine
  that is started now and begins with \<^verbatim>\<open>time.Sleep(t.requestRate)\<close> starts sleeping now
  or later, so the earliest time it wakes up at is one rate from now.
\<close>

definition wake :: "world \<Rightarrow> time" where
  "wake w = clock w + max 0 (requestRate (thr w))"

definition spawn :: "goroutine \<Rightarrow> world \<Rightarrow> world" where
  "spawn g w = w\<lparr>goroutines := goroutines w @ [g]\<rparr>"

text \<open>
  One statement of a call: the next place and the world after it, or \<open>None\<close> when the
  call is blocked (\<^verbatim>\<open>Lock\<close> on a locked mutex, \<^verbatim>\<open>select\<close>) or has returned.
\<close>

fun wait_step :: "call \<Rightarrow> pc \<Rightarrow> world \<Rightarrow> (pc \<times> world) option" where
  "wait_step c Lock w =
     (if tokenChansMutex (thr w) then None
      else Some (Lookup, w\<lparr>thr := (thr w)\<lparr>tokenChansMutex := True\<rparr>\<rparr>))"
| "wait_step c Lookup w =
     (case tokenChans (thr w) (client_of c) of
        Some ch \<Rightarrow> Some (Unlock ch, w)
      | None \<Rightarrow> Some (Make, w))"
| "wait_step c Make w = Some (GoFirst (nchans w), w\<lparr>nchans := Suc (nchans w)\<rparr>)"
| "wait_step c (GoFirst ch) w = Some (Store ch, spawn (Sender ch) w)"
| "wait_step c (Store ch) w =
     Some (Unlock ch, w\<lparr>thr := (thr w)\<lparr>tokenChans := (tokenChans (thr w))(client_of c \<mapsto> ch)\<rparr>\<rparr>)"
| "wait_step c (Unlock ch) w =
     Some (MakeTimeout ch, w\<lparr>thr := (thr w)\<lparr>tokenChansMutex := False\<rparr>\<rparr>)"
| "wait_step c (MakeTimeout ch) w =
     Some (GoTimeout ch (nchans w), w\<lparr>nchans := Suc (nchans w)\<rparr>)"
| "wait_step c (GoTimeout ch tc) w = Some (Select ch tc, spawn (Sleeper (wake w) tc) w)"
| "wait_step c (Select ch tc) w = None"
| "wait_step c (GoNext ch t) w = Some (Return (clock w) None, spawn (Sleeper (wake w) ch) w)"
| "wait_step c (Return t r) w = None"

text \<open>
  Goroutine \<open>i\<close> executes its next statement; a sleeper can wake up when its time has come.
\<close>

definition run :: "nat \<Rightarrow> world \<Rightarrow> world option" where
  "run i w =
     (if length (goroutines w) \<le> i then None
      else case goroutines w ! i of
             Waiter c t0 p \<Rightarrow>
               (case wait_step c p w of
                  None \<Rightarrow> None
                | Some (p', w') \<Rightarrow> Some (w'\<lparr>goroutines := (goroutines w')[i := Waiter c t0 p']\<rparr>))
           | Sleeper t ch \<Rightarrow>
               (if t \<le> clock w then Some (w\<lparr>goroutines := (goroutines w)[i := Sender ch]\<rparr>)
                else None)
           | Sender ch \<Rightarrow> None
           | Finished \<Rightarrow> None)"

text \<open>
  The channels are unbuffered: a send completes together with a receive. All receives are
  cases of the \<^verbatim>\<open>select\<close>, so sender \<open>i\<close> meets call \<open>j\<close> at its \<^verbatim>\<open>select\<close>, on
  the token channel or on the timeout channel.
\<close>

definition sync :: "nat \<Rightarrow> nat \<Rightarrow> world \<Rightarrow> world option" where
  "sync i j w =
     (if length (goroutines w) \<le> i \<or> length (goroutines w) \<le> j then None
      else case (goroutines w ! i, goroutines w ! j) of
             (Sender ch, Waiter c t0 (Select tok tc)) \<Rightarrow>
               (if ch = tok then
                  Some (w\<lparr>goroutines :=
                    (goroutines w)[i := Finished, j := Waiter c t0 (GoNext tok (clock w))]\<rparr>)
                else if ch = tc then
                  Some (w\<lparr>goroutines :=
                    (goroutines w)[i := Finished,
                      j := Waiter c t0 (Return (clock w) (Some (timeout_error (thr w) c)))]\<rparr>)
                else None)
           | _ \<Rightarrow> None)"

text \<open>
  Time: the clock may advance at any moment and by any amount, since statements, the
  scheduler and the wait for the mutex take time. \<^verbatim>\<open>time.Sleep(d)\<close> pauses a goroutine
  for at least \<^verbatim>\<open>d\<close>: a sleeper holds the earliest time it may wake up at, and wakes up
  at that time or at any later one. When the sends on both channels of a \<^verbatim>\<open>select\<close> are
  ready, either can meet it, as in Go.
\<close>

definition tick :: "int \<Rightarrow> world \<Rightarrow> world option" where
  "tick n w = (if 0 < n then Some (w\<lparr>clock := clock w + n\<rparr>) else None)"

text \<open>
  The environment calls \<^verbatim>\<open>Wait\<close>, at any time and from any number of goroutines. A
  world is reachable when a sequence of calls, statements, rendezvous and ticks leads to it
  from the world after \<^verbatim>\<open>New\<close>.
\<close>

datatype action = Call call | Run nat | Sync nat nat | Tick int

fun step :: "action \<Rightarrow> world \<Rightarrow> world option" where
  "step (Call c) w = Some (spawn (Waiter c (clock w) Lock) w)"
| "step (Run i) w = run i w"
| "step (Sync i j) w = sync i j w"
| "step (Tick n) w = tick n w"

fun exec :: "action list \<Rightarrow> world \<Rightarrow> world option" where
  "exec [] w = Some w"
| "exec (a # as) w = (case step a w of None \<Rightarrow> None | Some w' \<Rightarrow> exec as w')"

inductive reachable :: "world \<Rightarrow> bool" where
  boot: "reachable (boot rate)"
| step: "reachable w \<Longrightarrow> step a w = Some w' \<Longrightarrow> reachable w'"

section \<open>What the goroutines hold\<close>

abbreviation mutex :: "world \<Rightarrow> bool" where
  "mutex w \<equiv> tokenChansMutex (thr w)"

abbreviation slots :: "world \<Rightarrow> string \<rightharpoonup> chan" where
  "slots w \<equiv> tokenChans (thr w)"

abbreviation rate :: "world \<Rightarrow> duration" where
  "rate w \<equiv> requestRate (thr w)"

text \<open>
  The channel in \<^verbatim>\<open>tokenChan\<close> and the channel in \<^verbatim>\<open>timeoutChan\<close> of a call, where
  the variable is set.
\<close>

fun token_chan :: "pc \<Rightarrow> chan option" where
  "token_chan (GoFirst ch) = Some ch"
| "token_chan (Store ch) = Some ch"
| "token_chan (Unlock ch) = Some ch"
| "token_chan (MakeTimeout ch) = Some ch"
| "token_chan (GoTimeout ch tc) = Some ch"
| "token_chan (Select ch tc) = Some ch"
| "token_chan (GoNext ch t) = Some ch"
| "token_chan p = None"

fun timeout_chan :: "pc \<Rightarrow> chan option" where
  "timeout_chan (GoTimeout ch tc) = Some tc"
| "timeout_chan (Select ch tc) = Some tc"
| "timeout_chan p = None"

fun takes :: "goroutine \<Rightarrow> chan \<Rightarrow> bool" where
  "takes (Waiter c t0 p) ch = (token_chan p = Some ch)"
| "takes g ch = False"

fun awaits :: "goroutine \<Rightarrow> chan \<Rightarrow> bool" where
  "awaits (Waiter c t0 p) tc = (timeout_chan p = Some tc)"
| "awaits g tc = False"

fun refers :: "goroutine \<Rightarrow> chan \<Rightarrow> bool" where
  "refers (Waiter c t0 p) ch = (token_chan p = Some ch \<or> timeout_chan p = Some ch)"
| "refers (Sleeper t c) ch = (c = ch)"
| "refers (Sender c) ch = (c = ch)"
| "refers Finished ch = False"

text \<open>
  A goroutine owes a send on a channel when it is blocked in the send, sleeps before it, or
  is a call at the \<^verbatim>\<open>go\<close> statement that starts the sending goroutine. For the
  channel of a client these are its tokens: the token that waits for a receiver, the token
  that is being produced, and the token whose production is about to be started.
\<close>

fun owes :: "goroutine \<Rightarrow> chan \<Rightarrow> bool" where
  "owes (Waiter c t0 (GoFirst c')) ch = (c' = ch)"
| "owes (Waiter c t0 (GoTimeout tok c')) ch = (c' = ch)"
| "owes (Waiter c t0 (GoNext c' t)) ch = (c' = ch)"
| "owes (Waiter c t0 p) ch = False"
| "owes (Sleeper t c') ch = (c' = ch)"
| "owes (Sender c') ch = (c' = ch)"
| "owes Finished ch = False"

definition in_flight :: "world \<Rightarrow> chan \<Rightarrow> goroutine list" where
  "in_flight w ch = filter (\<lambda>g. owes g ch) (goroutines w)"

text \<open>
  The calls between \<^verbatim>\<open>Lock\<close> and \<^verbatim>\<open>Unlock\<close>.
\<close>

fun holds_lock :: "goroutine \<Rightarrow> bool" where
  "holds_lock (Waiter c t0 Lookup) = True"
| "holds_lock (Waiter c t0 Make) = True"
| "holds_lock (Waiter c t0 (GoFirst ch)) = True"
| "holds_lock (Waiter c t0 (Store ch)) = True"
| "holds_lock (Waiter c t0 (Unlock ch)) = True"
| "holds_lock g = False"

text \<open>
  The calls that cannot execute a statement by themselves, the calls that have returned,
  and the order of the places.
\<close>

fun blocked :: "pc \<Rightarrow> bool" where
  "blocked Lock = True"
| "blocked (Select ch tc) = True"
| "blocked (Return t r) = True"
| "blocked p = False"

fun returned :: "pc \<Rightarrow> bool" where
  "returned (Return t r) = True"
| "returned p = False"

fun stage :: "pc \<Rightarrow> nat" where
  "stage Lock = 0"
| "stage Lookup = 1"
| "stage Make = 2"
| "stage (GoFirst ch) = 3"
| "stage (Store ch) = 4"
| "stage (Unlock ch) = 5"
| "stage (MakeTimeout ch) = 6"
| "stage (GoTimeout ch tc) = 7"
| "stage (Select ch tc) = 8"
| "stage (GoNext ch t) = 9"
| "stage (Return t r) = 10"

fun is_call :: "goroutine \<Rightarrow> bool" where
  "is_call (Waiter c t0 p) = True"
| "is_call g = False"

section \<open>Invariants of the reachable worlds\<close>

text \<open>
  Every channel in use was made: its number is below the number of channels made.
\<close>

definition made :: "world \<Rightarrow> bool" where
  "made w = ((\<forall>i<length (goroutines w). \<forall>ch. refers (goroutines w ! i) ch \<longrightarrow> ch < nchans w) \<and>
             (\<forall>k ch. slots w k = Some ch \<longrightarrow> ch < nchans w))"

text \<open>
  The mutex is locked exactly when one call is between \<^verbatim>\<open>Lock\<close> and
  \<^verbatim>\<open>Unlock\<close>, and no two calls are.
\<close>

definition exclusive :: "world \<Rightarrow> bool" where
  "exclusive w = (length (filter holds_lock (goroutines w)) = (if mutex w then 1 else 0))"

text \<open>
  No channel has two goroutines that owe a send on it.
\<close>

definition one_owner :: "world \<Rightarrow> bool" where
  "one_owner w = (\<forall>ch. length (filter (\<lambda>g. owes g ch) (goroutines w)) \<le> 1)"

text \<open>
  A timeout channel belongs to one call: no other call selects on it, no call uses it as
  its token channel, and it is not in the map.
\<close>

definition separate :: "world \<Rightarrow> bool" where
  "separate w =
     ((\<forall>tc. length (filter (\<lambda>g. awaits g tc) (goroutines w)) \<le> 1) \<and>
      (\<forall>i<length (goroutines w). \<forall>j<length (goroutines w). \<forall>tc.
         awaits (goroutines w ! i) tc \<longrightarrow> \<not> takes (goroutines w ! j) tc) \<and>
      (\<forall>i<length (goroutines w). \<forall>tc k.
         awaits (goroutines w ! i) tc \<longrightarrow> slots w k \<noteq> Some tc))"

text \<open>
  What the map holds for the client of a call: nothing while the call makes the channel,
  and the token channel of the call from the moment it is stored or found.
\<close>

fun binding :: "(string \<rightharpoonup> chan) \<Rightarrow> string \<Rightarrow> pc \<Rightarrow> bool" where
  "binding m k Make = (m k = None)"
| "binding m k (GoFirst ch) = (m k = None)"
| "binding m k (Store ch) = (m k = None)"
| "binding m k (Unlock ch) = (m k = Some ch)"
| "binding m k (MakeTimeout ch) = (m k = Some ch)"
| "binding m k (GoTimeout ch tc) = (m k = Some ch)"
| "binding m k (Select ch tc) = (m k = Some ch)"
| "binding m k (GoNext ch t) = (m k = Some ch)"
| "binding m k p = True"

definition keyed :: "world \<Rightarrow> bool" where
  "keyed w =
     (\<forall>i<length (goroutines w). \<forall>c t0 p.
        goroutines w ! i = Waiter c t0 p \<longrightarrow> binding (slots w) (client_of c) p)"

text \<open>
  Time: a call was made in the past; it received its token, and it returned, between the
  call and now; and it returned an error one rate after the call at the earliest. No sleeper
  has more than one rate left to sleep. A call in its \<^verbatim>\<open>select\<close> has its timeout
  pending: one goroutine owes the send on the timeout channel; it does not wake up earlier
  than one rate after the call, and when it is blocked in the send, one rate has passed
  since the call.
\<close>

fun on_time :: "time \<Rightarrow> duration \<Rightarrow> time \<Rightarrow> pc \<Rightarrow> bool" where
  "on_time now d t0 (GoNext ch t) = (t0 \<le> t \<and> t \<le> now)"
| "on_time now d t0 (Return t r) = (t0 \<le> t \<and> t \<le> now \<and> (r \<noteq> None \<longrightarrow> t0 + max 0 d \<le> t))"
| "on_time now d t0 p = (t0 \<le> now)"

fun punctual :: "time \<Rightarrow> duration \<Rightarrow> goroutine \<Rightarrow> bool" where
  "punctual now d (Waiter c t0 p) = on_time now d t0 p"
| "punctual now d (Sleeper t ch) = (t \<le> now + max 0 d)"
| "punctual now d g = True"

definition timely :: "world \<Rightarrow> bool" where
  "timely w = (\<forall>i<length (goroutines w). punctual (clock w) (rate w) (goroutines w ! i))"

definition armed :: "world \<Rightarrow> bool" where
  "armed w =
     (\<forall>i<length (goroutines w). \<forall>c t0 tok tc.
        goroutines w ! i = Waiter c t0 (Select tok tc) \<longrightarrow>
          length (filter (\<lambda>g. owes g tc) (goroutines w)) = 1 \<and>
          (\<forall>k<length (goroutines w). \<forall>t.
             goroutines w ! k = Sleeper t tc \<longrightarrow> t0 + max 0 (rate w) \<le> t) \<and>
          (\<forall>k<length (goroutines w).
             goroutines w ! k = Sender tc \<longrightarrow> t0 + max 0 (rate w) \<le> clock w))"

text \<open>
  The channel of a client has exactly one token in flight, from the \<^verbatim>\<open>go\<close> statement
  that starts the sender of the first token, before the channel is in the map.
\<close>

definition stocked :: "world \<Rightarrow> bool" where
  "stocked w =
     ((\<forall>k ch. slots w k = Some ch \<longrightarrow>
         length (filter (\<lambda>g. owes g ch) (goroutines w)) = 1) \<and>
      (\<forall>i<length (goroutines w). \<forall>ch. takes (goroutines w ! i) ch \<longrightarrow>
         length (filter (\<lambda>g. owes g ch) (goroutines w)) = 1))"

text \<open>
  The first goroutine of a world is a call of \<^verbatim>\<open>Wait\<close>.
\<close>

definition called :: "world \<Rightarrow> bool" where
  "called w = (goroutines w \<noteq> [] \<longrightarrow> is_call (goroutines w ! 0))"

section \<open>Goroutines that nobody receives from\<close>

text \<open>
  A channel is abandoned when it was made, is not in the map, and is neither the token
  channel nor the timeout channel of any call. New calls take their channels from the map
  or make them, so nothing will ever receive from an abandoned channel. A goroutine that
  sleeps before a send on such a channel, or is blocked in it, has leaked.
\<close>

definition abandoned :: "world \<Rightarrow> chan \<Rightarrow> bool" where
  "abandoned w tc =
     (tc < nchans w \<and> (\<forall>client. tokenChans (thr w) client \<noteq> Some tc) \<and>
      list_all (\<lambda>g. \<not> takes g tc \<and> \<not> awaits g tc) (goroutines w))"

fun sends_on :: "goroutine \<Rightarrow> chan \<Rightarrow> bool" where
  "sends_on (Sleeper t c) ch = (c = ch)"
| "sends_on (Sender c) ch = (c = ch)"
| "sends_on g ch = False"

definition leaked :: "world \<Rightarrow> nat \<Rightarrow> chan \<Rightarrow> bool" where
  "leaked w k tc =
     (k < length (goroutines w) \<and> sends_on (goroutines w ! k) tc \<and> abandoned w tc)"

definition leaks_forever :: "world \<Rightarrow> nat \<Rightarrow> chan \<Rightarrow> bool" where
  "leaks_forever w k tc = (\<forall>as w'. exec as w = Some w' \<longrightarrow> leaked w' k tc)"

section \<open>Progress\<close>


fun internal :: "action \<Rightarrow> bool" where
  "internal (Call c) = False"
| "internal a = True"

fun weight :: "goroutine \<Rightarrow> nat" where
  "weight (Waiter c t0 p) = 3 * (10 - stage p)"
| "weight (Sleeper t ch) = 2"
| "weight (Sender ch) = 1"
| "weight Finished = 0"

definition work :: "world \<Rightarrow> nat" where
  "work w = sum_list (map weight (goroutines w))"

section \<open>The first call of a client\<close>

text \<open>
  The call at position \<open>n\<close> is the only call of its client. Its token channel is
  unshared when no other client has it in the map and no other call holds it; a channel
  offers as many tokens as senders are blocked on it. From the \<^verbatim>\<open>go\<close> statement on to
  the \<^verbatim>\<open>select\<close>, the first token is offered on the unshared channel, and it still is
  when the call has returned the error; when the call has returned \<^verbatim>\<open>nil\<close>, the
  channel is in the map.
\<close>

definition unshared :: "nat \<Rightarrow> string \<Rightarrow> world \<Rightarrow> chan \<Rightarrow> bool" where
  "unshared n k w ch =
     ((\<forall>client. client \<noteq> k \<longrightarrow> tokenChans (thr w) client \<noteq> Some ch) \<and>
      (\<forall>i<length (goroutines w). i \<noteq> n \<longrightarrow>
         \<not> takes (goroutines w ! i) ch \<and> \<not> awaits (goroutines w ! i) ch))"

definition offers :: "world \<Rightarrow> chan \<Rightarrow> nat" where
  "offers w ch = length (filter (\<lambda>g. g = Sender ch) (goroutines w))"

fun first_at :: "nat \<Rightarrow> string \<Rightarrow> world \<Rightarrow> pc \<Rightarrow> bool" where
  "first_at n k w Lock = (tokenChans (thr w) k = None)"
| "first_at n k w Lookup = (tokenChans (thr w) k = None)"
| "first_at n k w Make = (tokenChans (thr w) k = None)"
| "first_at n k w (GoFirst ch) = unshared n k w ch"
| "first_at n k w (Store ch) = (unshared n k w ch \<and> 0 < offers w ch)"
| "first_at n k w (Unlock ch) = (unshared n k w ch \<and> 0 < offers w ch)"
| "first_at n k w (MakeTimeout ch) = (unshared n k w ch \<and> 0 < offers w ch)"
| "first_at n k w (GoTimeout ch tc) = (unshared n k w ch \<and> 0 < offers w ch)"
| "first_at n k w (Select ch tc) = (unshared n k w ch \<and> 0 < offers w ch)"
| "first_at n k w (GoNext ch t) = True"
| "first_at n k w (Return t None) = (tokenChans (thr w) k \<noteq> None)"
| "first_at n k w (Return t (Some e)) =
     (case tokenChans (thr w) k of None \<Rightarrow> False
      | Some ch \<Rightarrow> unshared n k w ch \<and> 0 < offers w ch)"

definition first_call :: "nat \<Rightarrow> call \<Rightarrow> time \<Rightarrow> world \<Rightarrow> bool" where
  "first_call n c t0 w =
     (n < length (goroutines w) \<and>
      (\<exists>p. goroutines w ! n = Waiter c t0 p \<and> first_at n (client_of c) w p) \<and>
      (\<forall>i<length (goroutines w). i \<noteq> n \<longrightarrow>
         (\<forall>c' t' p'. goroutines w ! i = Waiter c' t' p' \<longrightarrow> client_of c' \<noteq> client_of c)))"

section \<open>Example runs\<close>

text \<open>
  One call from a fresh throttle up to its \<^verbatim>\<open>select\<close>, and on to its return with a
  token and to the time its sleepers wake up at; and two calls for one client at the same
  time, both up to their \<^verbatim>\<open>select\<close>, the first served and the second up to its
  \<^verbatim>\<open>select\<close>, or the second served before the first. Then the worlds in which time
  has passed between two statements: the single call rejected by its timeout, the second
  call rejected after more than one rate, and the single call served with the producer
  of the next token started late. The worlds are those of a throttle with a rate of 3 ns
  and the client \<^verbatim>\<open>a\<close>, and of a throttle with a rate of one second and a request.
\<close>

definition to_select :: "call \<Rightarrow> action list" where
  "to_select c = [Call c, Run 0, Run 0, Run 0, Run 0, Run 0, Run 0, Run 0, Run 0]"

definition admitted :: "call \<Rightarrow> action list" where
  "admitted c = to_select c @ [Sync 1 0, Run 0]"

definition both :: "call \<Rightarrow> action list" where
  "both c = [Call c, Call c, Run 0, Run 0, Run 0, Run 0, Run 0, Run 0, Run 0, Run 0,
     Run 1, Run 1, Run 1, Run 1, Run 1]"

definition rival :: "call \<Rightarrow> action list" where
  "rival c = [Call c, Call c, Run 0, Run 0, Run 0, Run 0, Run 0, Run 0, Run 0, Run 0,
     Sync 2 0, Run 0, Run 1, Run 1, Run 1, Run 1, Run 1]"

definition at_select :: world where
  "at_select =
     \<lparr>thr = \<lparr>requestRate = 3, tokenChansMutex = False, tokenChans = [''a'' \<mapsto> 0]\<rparr>,
      clock = 0, nchans = 2,
      goroutines = [Waiter (WaitClient ''a'') 0 (Select 0 1), Sender 0, Sleeper 3 1]\<rparr>"

definition at_go_next :: world where
  "at_go_next =
     \<lparr>thr = \<lparr>requestRate = 3, tokenChansMutex = False, tokenChans = [''a'' \<mapsto> 0]\<rparr>,
      clock = 0, nchans = 2,
      goroutines = [Waiter (WaitClient ''a'') 0 (GoNext 0 0), Finished, Sleeper 3 1]\<rparr>"

definition at_return :: world where
  "at_return =
     \<lparr>thr = \<lparr>requestRate = 3, tokenChansMutex = False, tokenChans = [''a'' \<mapsto> 0]\<rparr>,
      clock = 0, nchans = 2,
      goroutines = [Waiter (WaitClient ''a'') 0 (Return 0 None), Finished, Sleeper 3 1,
        Sleeper 3 0]\<rparr>"

definition at_due :: world where
  "at_due =
     \<lparr>thr = \<lparr>requestRate = 3, tokenChansMutex = False, tokenChans = [''a'' \<mapsto> 0]\<rparr>,
      clock = 3, nchans = 2,
      goroutines = [Waiter (WaitClient ''a'') 0 (Return 0 None), Finished, Sleeper 3 1,
        Sleeper 3 0]\<rparr>"

definition at_stuck :: world where
  "at_stuck =
     \<lparr>thr = \<lparr>requestRate = 3, tokenChansMutex = False, tokenChans = [''a'' \<mapsto> 0]\<rparr>,
      clock = 3, nchans = 2,
      goroutines = [Waiter (WaitClient ''a'') 0 (Return 0 None), Finished, Sender 1,
        Sleeper 3 0]\<rparr>"

definition at_both :: world where
  "at_both =
     \<lparr>thr = \<lparr>requestRate = 3, tokenChansMutex = False, tokenChans = [''a'' \<mapsto> 0]\<rparr>,
      clock = 0, nchans = 3,
      goroutines = [Waiter (WaitClient ''a'') 0 (Select 0 1),
        Waiter (WaitClient ''a'') 0 (Select 0 2), Sender 0, Sleeper 3 1, Sleeper 3 2]\<rparr>"

definition at_rival :: world where
  "at_rival =
     \<lparr>thr = \<lparr>requestRate = 3, tokenChansMutex = False, tokenChans = [''a'' \<mapsto> 0]\<rparr>,
      clock = 3, nchans = 3,
      goroutines = [Waiter (WaitClient ''a'') 0 (Return 0 None),
        Waiter (WaitClient ''a'') 0 (Select 0 2), Finished, Sleeper 3 1, Sleeper 3 0,
        Sender 2]\<rparr>"

definition at_reject :: world where
  "at_reject =
     \<lparr>thr = \<lparr>requestRate = 3, tokenChansMutex = False, tokenChans = [''a'' \<mapsto> 0]\<rparr>,
      clock = 3, nchans = 3,
      goroutines = [Waiter (WaitClient ''a'') 0 (Return 0 None),
        Waiter (WaitClient ''a'') 0 (Return 3 (Some (OneRequestPer 3))), Finished, Sleeper 3 1,
        Sleeper 3 0, Finished]\<rparr>"

definition steal :: "call \<Rightarrow> action list" where
  "steal c = [Call c, Call c, Run 0, Run 0, Run 0, Run 0, Run 0, Run 0,
     Run 1, Run 1, Run 1, Run 1, Run 1, Sync 2 1, Run 1, Run 0, Run 0,
     Tick 3, Run 5, Sync 5 0]"

definition at_stolen :: world where
  "at_stolen =
     \<lparr>thr = \<lparr>requestRate = 3, tokenChansMutex = False, tokenChans = [''a'' \<mapsto> 0]\<rparr>,
      clock = 3, nchans = 3,
      goroutines = [Waiter (WaitClient ''a'') 0 (Return 3 (Some (OneRequestPer 3))),
        Waiter (WaitClient ''a'') 0 (Return 0 None), Finished, Sleeper 3 1, Sleeper 3 0,
        Finished]\<rparr>"

definition at_refused :: world where
  "at_refused =
     \<lparr>thr = \<lparr>requestRate = 3, tokenChansMutex = False, tokenChans = [''a'' \<mapsto> 0]\<rparr>,
      clock = 3, nchans = 2,
      goroutines = [Waiter (WaitClient ''a'') 0 (Return 3 (Some (OneRequestPer 3))), Sender 0,
        Finished]\<rparr>"


definition at_delayed :: world where
  "at_delayed =
     \<lparr>thr = \<lparr>requestRate = 3, tokenChansMutex = False, tokenChans = [''a'' \<mapsto> 0]\<rparr>,
      clock = 1, nchans = 2,
      goroutines = [Waiter (WaitClient ''a'') 0 (Return 1 None), Finished, Sleeper 3 1,
        Sleeper 4 0]\<rparr>"

definition request :: Request where
  "request = \<lparr>RemoteAddr = ''10.0.0.7:5113''\<rparr>"

definition request_rejected :: world where
  "request_rejected =
     \<lparr>thr = \<lparr>requestRate = Second, tokenChansMutex = False,
              tokenChans = [''10.0.0.7'' \<mapsto> 0]\<rparr>,
      clock = Second, nchans = 3,
      goroutines = [Waiter (WaitRequest request) 0 (Return 0 None),
        Waiter (WaitRequest request) 0 (Return Second (Some (OneRequestPer (5 * Second)))),
        Finished, Sleeper Second 1, Sleeper Second 0, Finished]\<rparr>"

section \<open>Lemmas\<close>

lemma run_cases [consumes 1, case_names Lock Hit Miss Make GoFirst Store Unlock MakeTimeout
    GoTimeout GoNext Wake]:
  assumes "run i w = Some w'"
  obtains
    (Lock) c t0 where "i < length (goroutines w)" "goroutines w ! i = Waiter c t0 Lock"
      "\<not> mutex w"
      "w' = w\<lparr>thr := (thr w)\<lparr>tokenChansMutex := True\<rparr>,
               goroutines := (goroutines w)[i := Waiter c t0 Lookup]\<rparr>"
  | (Hit) c t0 ch where "i < length (goroutines w)" "goroutines w ! i = Waiter c t0 Lookup"
      "slots w (client_of c) = Some ch"
      "w' = w\<lparr>goroutines := (goroutines w)[i := Waiter c t0 (Unlock ch)]\<rparr>"
  | (Miss) c t0 where "i < length (goroutines w)" "goroutines w ! i = Waiter c t0 Lookup"
      "slots w (client_of c) = None"
      "w' = w\<lparr>goroutines := (goroutines w)[i := Waiter c t0 Make]\<rparr>"
  | (Make) c t0 where "i < length (goroutines w)" "goroutines w ! i = Waiter c t0 Make"
      "w' = w\<lparr>nchans := Suc (nchans w),
               goroutines := (goroutines w)[i := Waiter c t0 (GoFirst (nchans w))]\<rparr>"
  | (GoFirst) c t0 ch where "i < length (goroutines w)"
      "goroutines w ! i = Waiter c t0 (GoFirst ch)"
      "w' = w\<lparr>goroutines := (goroutines w @ [Sender ch])[i := Waiter c t0 (Store ch)]\<rparr>"
  | (Store) c t0 ch where "i < length (goroutines w)"
      "goroutines w ! i = Waiter c t0 (Store ch)"
      "w' = w\<lparr>thr := (thr w)\<lparr>tokenChans := (slots w)(client_of c \<mapsto> ch)\<rparr>,
               goroutines := (goroutines w)[i := Waiter c t0 (Unlock ch)]\<rparr>"
  | (Unlock) c t0 ch where "i < length (goroutines w)"
      "goroutines w ! i = Waiter c t0 (Unlock ch)"
      "w' = w\<lparr>thr := (thr w)\<lparr>tokenChansMutex := False\<rparr>,
               goroutines := (goroutines w)[i := Waiter c t0 (MakeTimeout ch)]\<rparr>"
  | (MakeTimeout) c t0 ch where "i < length (goroutines w)"
      "goroutines w ! i = Waiter c t0 (MakeTimeout ch)"
      "w' = w\<lparr>nchans := Suc (nchans w),
               goroutines := (goroutines w)[i := Waiter c t0 (GoTimeout ch (nchans w))]\<rparr>"
  | (GoTimeout) c t0 ch tc where "i < length (goroutines w)"
      "goroutines w ! i = Waiter c t0 (GoTimeout ch tc)"
      "w' = w\<lparr>goroutines :=
               (goroutines w @ [Sleeper (wake w) tc])[i := Waiter c t0 (Select ch tc)]\<rparr>"
  | (GoNext) c t0 ch t where "i < length (goroutines w)"
      "goroutines w ! i = Waiter c t0 (GoNext ch t)"
      "w' = w\<lparr>goroutines :=
               (goroutines w @ [Sleeper (wake w) ch])[i := Waiter c t0 (Return (clock w) None)]\<rparr>"
  | (Wake) t ch where "i < length (goroutines w)" "goroutines w ! i = Sleeper t ch"
      "t \<le> clock w"
      "w' = w\<lparr>goroutines := (goroutines w)[i := Sender ch]\<rparr>"
proof -
  from assms have len: "i < length (goroutines w)"
    by (auto simp: run_def split: if_splits)
  show thesis
  proof (cases "goroutines w ! i")
    case (Waiter c t0 p)
    with assms len show thesis
      by (cases p) (auto simp: run_def spawn_def split: if_splits option.splits
          intro: Lock Hit Miss Make GoFirst Store Unlock MakeTimeout GoTimeout GoNext)
  next
    case (Sleeper t ch)
    with assms len show thesis
      by (auto simp: run_def split: if_splits intro: Wake)
  next
    case (Sender ch)
    with assms len show thesis by (simp add: run_def)
  next
    case Finished
    with assms len show thesis by (simp add: run_def)
  qed
qed

lemma sync_cases [consumes 1, case_names Token Timeout]:
  assumes "sync i j w = Some w'"
  obtains
    (Token) c t0 tok tc where "i < length (goroutines w)" "j < length (goroutines w)"
      "goroutines w ! i = Sender tok" "goroutines w ! j = Waiter c t0 (Select tok tc)"
      "w' = w\<lparr>goroutines :=
               (goroutines w)[i := Finished, j := Waiter c t0 (GoNext tok (clock w))]\<rparr>"
  | (Timeout) c t0 tok tc where "i < length (goroutines w)" "j < length (goroutines w)"
      "goroutines w ! i = Sender tc" "goroutines w ! j = Waiter c t0 (Select tok tc)"
      "tc \<noteq> tok"
      "w' = w\<lparr>goroutines :=
               (goroutines w)[i := Finished,
                 j := Waiter c t0 (Return (clock w) (Some (timeout_error (thr w) c)))]\<rparr>"
  using assms
  by (auto simp: sync_def split: if_splits goroutine.splits pc.splits)

lemma tick_cases [consumes 1, case_names Tick]:
  assumes "tick n w = Some w'"
  obtains "0 < n" "w' = w\<lparr>clock := clock w + n\<rparr>"
  using assms by (auto simp: tick_def split: if_splits)



lemma reachable_invariant [consumes 1, case_names boot call run sync tick]:
  assumes "reachable w"
    and "\<And>r. P (boot r)"
    and "\<And>w c. reachable w \<Longrightarrow> P w \<Longrightarrow> P (spawn (Waiter c (clock w) Lock) w)"
    and "\<And>w i w'. reachable w \<Longrightarrow> P w \<Longrightarrow> run i w = Some w' \<Longrightarrow> P w'"
    and "\<And>w i j w'. reachable w \<Longrightarrow> P w \<Longrightarrow> sync i j w = Some w' \<Longrightarrow> P w'"
    and "\<And>w n w'. reachable w \<Longrightarrow> P w \<Longrightarrow> tick n w = Some w' \<Longrightarrow> P w'"
  shows "P w"
  using assms(1)
proof (induction rule: reachable.induct)
  case (boot r)
  show ?case by (rule assms(2))
next
  case (step w a w')
  then show ?case
    by (cases a) (auto intro: assms(3-6))
qed

lemma owes_refers: "owes g ch \<Longrightarrow> refers g ch"
  by (induction g ch rule: owes.induct) auto

lemma nth_spawned:
  "i < length xs \<Longrightarrow> k < Suc (length xs) \<Longrightarrow>
   ((xs @ [y])[i := x]) ! k = (if k = i then x else if k = length xs then y else xs ! k)"
  by (auto simp: nth_list_update nth_append)

lemma made_reachable: "reachable w \<Longrightarrow> made w"
proof (induction rule: reachable_invariant)
  case (boot r)
  show ?case by (simp add: made_def boot_def New_def)
next
  case (call w c)
  then show ?case by (auto simp: made_def spawn_def nth_append)
next
  case (run w i w')
  from run.hyps(2) run.IH show ?case
    by (cases rule: run_cases)
       (auto simp: made_def less_Suc_eq nth_list_update nth_append split: if_splits)
next
  case (sync w i j w')
  from sync.hyps(2) sync.IH show ?case
    by (cases rule: sync_cases)
       (auto simp: made_def nth_list_update split: if_splits)
next
  case (tick w n w')
  from tick.hyps(2) tick.IH show ?case
    by (cases rule: tick_cases) (auto simp: made_def)
qed

lemmas nth_simps = nth_list_update nth_append less_Suc_eq

lemma count_pos: "i < length xs \<Longrightarrow> P (xs ! i) \<Longrightarrow> 0 < length (filter P xs)"
  by (simp add: filter_empty_conv) (meson nth_mem)

lemma count_ex:
  assumes "0 < length (filter P xs)"
  shows "\<exists>k<length xs. P (xs ! k)"
proof -
  from assms have "filter P xs \<noteq> []" by simp
  then obtain x where "x \<in> set xs" "P x" by (auto simp: filter_empty_conv)
  then show ?thesis by (auto simp: in_set_conv_nth)
qed

lemma count_update:
  "i < length xs \<Longrightarrow>
   length (filter P (xs[i := x])) =
     (if P (xs ! i) then length (filter P xs) - 1 else length (filter P xs)) +
     (if P x then 1 else 0)"
proof (induction xs arbitrary: i)
  case Nil
  then show ?case by simp
next
  case (Cons a xs)
  show ?case
  proof (cases i)
    case 0
    then show ?thesis by simp
  next
    case (Suc k)
    with Cons.prems have k: "k < length xs" by simp
    have "P (xs ! k) \<Longrightarrow> 0 < length (filter P xs)"
      using k by (rule count_pos)
    with Suc Cons.IH [OF k] show ?thesis by auto
  qed
qed

lemma count_unique:
  "length (filter P xs) \<le> 1 \<Longrightarrow> i < length xs \<Longrightarrow> j < length xs \<Longrightarrow>
   P (xs ! i) \<Longrightarrow> P (xs ! j) \<Longrightarrow> i = j"
proof (induction xs arbitrary: i j)
  case Nil
  then show ?case by simp
next
  case (Cons a xs)
  show ?case
  proof (cases "P a")
    case True
    with Cons.prems(1) have none: "length (filter P xs) = 0" by simp
    have "i = 0"
    proof (cases i)
      case (Suc k)
      with Cons.prems have "k < length xs" "P (xs ! k)" by simp_all
      then have "0 < length (filter P xs)" by (rule count_pos)
      with none show ?thesis by simp
    qed simp
    moreover have "j = 0"
    proof (cases j)
      case (Suc k)
      with Cons.prems have "k < length xs" "P (xs ! k)" by simp_all
      then have "0 < length (filter P xs)" by (rule count_pos)
      with none show ?thesis by simp
    qed simp
    ultimately show ?thesis by simp
  next
    case False
    with Cons.prems obtain i' j' where ij: "i = Suc i'" "j = Suc j'"
      by (cases i; cases j) auto
    with Cons.prems False have "i' = j'"
      by (intro Cons.IH) auto
    with ij show ?thesis by simp
  qed
qed

lemma exclusive_reachable: "reachable w \<Longrightarrow> exclusive w"
proof (induction rule: reachable_invariant)
  case (boot r)
  show ?case by (simp add: exclusive_def boot_def New_def)
next
  case (call w c)
  then show ?case by (auto simp: exclusive_def spawn_def)
next
  case (run w i w')
  have pos: "i < length (goroutines w) \<Longrightarrow> holds_lock (goroutines w ! i) \<Longrightarrow>
      0 < length (filter holds_lock (goroutines w))"
    by (rule count_pos)
  from run.hyps(2) run.IH pos show ?case
    by (cases rule: run_cases)
       (auto simp: exclusive_def count_update nth_simps split: if_splits)
next
  case (sync w i j w')
  from sync.hyps(2) sync.IH show ?case
    by (cases rule: sync_cases)
       (auto simp: exclusive_def count_update nth_simps split: if_splits)
next
  case (tick w n w')
  from tick.hyps(2) tick.IH show ?case
    by (cases rule: tick_cases) (auto simp: exclusive_def)
qed

lemma made_fresh_owes:
  assumes "made w" "nchans w \<le> ch"
  shows "length (filter (\<lambda>g. owes g ch) (goroutines w)) = 0"
proof -
  have "\<not> owes g ch" if "g \<in> set (goroutines w)" for g
  proof
    assume "owes g ch"
    then have r: "refers g ch" by (rule owes_refers)
    from that obtain i where "i < length (goroutines w)" "g = goroutines w ! i"
      by (auto simp: in_set_conv_nth)
    with r assms(1) have "ch < nchans w" by (simp add: made_def)
    with assms(2) show False by simp
  qed
  then show ?thesis by (simp add: filter_empty_conv)
qed

lemma one_owner_reachable: "reachable w \<Longrightarrow> one_owner w"
proof (induction rule: reachable_invariant)
  case (boot r)
  show ?case by (simp add: one_owner_def boot_def New_def)
next
  case (call w c)
  then show ?case by (auto simp: one_owner_def spawn_def)
next
  case (run w i w')
  from run.hyps(1) have fresh: "length (filter (\<lambda>g. owes g (nchans w)) (goroutines w)) = 0"
    by (intro made_fresh_owes made_reachable) simp_all
  from run.hyps(2) run.IH fresh show ?case
    by (cases rule: run_cases)
       (auto simp: one_owner_def count_update nth_simps split: if_splits)
next
  case (sync w i j w')
  from sync.hyps(2) sync.IH show ?case
    by (cases rule: sync_cases)
       (auto simp: one_owner_def count_update nth_simps split: if_splits)
next
  case (tick w n w')
  from tick.hyps(2) tick.IH show ?case
    by (cases rule: tick_cases) (auto simp: one_owner_def)
qed

lemma made_fresh_awaits:
  assumes "made w" "nchans w \<le> ch"
  shows "length (filter (\<lambda>g. awaits g ch) (goroutines w)) = 0"
proof -
  have "\<not> awaits g ch" if "g \<in> set (goroutines w)" for g
  proof
    assume "awaits g ch"
    then have r: "refers g ch" by (cases g) auto
    from that obtain i where "i < length (goroutines w)" "g = goroutines w ! i"
      by (auto simp: in_set_conv_nth)
    with r assms(1) have "ch < nchans w" by (simp add: made_def)
    with assms(2) show False by simp
  qed
  then show ?thesis by (simp add: filter_empty_conv)
qed

lemma made_nth: "made w \<Longrightarrow> i < length (goroutines w) \<Longrightarrow> refers (goroutines w ! i) ch \<Longrightarrow> ch < nchans w"
  by (simp add: made_def)

lemma made_slot: "made w \<Longrightarrow> slots w k = Some ch \<Longrightarrow> ch < nchans w"
  by (simp add: made_def)

lemma awaits_refers: "awaits g ch \<Longrightarrow> refers g ch"
  by (cases g) auto

lemma takes_refers: "takes g ch \<Longrightarrow> refers g ch"
  by (cases g) auto

lemma separate_reachable: "reachable w \<Longrightarrow> separate w"
proof (induction rule: reachable_invariant)
  case (boot r)
  show ?case by (simp add: separate_def boot_def New_def)
next
  case (call w c)
  then show ?case by (auto simp: separate_def spawn_def nth_simps)
next
  case (run w i w')
  from run.hyps(1) have m: "made w" by (rule made_reachable)
  from m have fresh: "length (filter (\<lambda>g. awaits g (nchans w)) (goroutines w)) = 0"
    by (rule made_fresh_awaits) simp
  have f1: "\<And>j. j < length (goroutines w) \<Longrightarrow> \<not> awaits (goroutines w ! j) (nchans w)"
    using made_nth [OF m] awaits_refers by blast
  have f2: "\<And>j. j < length (goroutines w) \<Longrightarrow> \<not> takes (goroutines w ! j) (nchans w)"
    using made_nth [OF m] takes_refers by blast
  have f3: "\<And>k. slots w k \<noteq> Some (nchans w)"
    using made_slot [OF m] by blast
  have f4: "\<And>j tc. i < length (goroutines w) \<Longrightarrow> j < length (goroutines w) \<Longrightarrow>
      awaits (goroutines w ! j) tc \<Longrightarrow> \<not> takes (goroutines w ! i) tc"
    using run.IH by (simp add: separate_def)
  have f5: "i < length (goroutines w) \<Longrightarrow> \<not> takes (goroutines w ! i) (nchans w)"
    by (rule f2)
  from run.hyps(2) run.IH fresh f1 f2 f3 f4 f5 show ?case
    by (cases rule: run_cases)
       (auto simp: separate_def count_update nth_simps split: if_splits)
next
  case (sync w i j w')
  have f4: "\<And>k tc. j < length (goroutines w) \<Longrightarrow> k < length (goroutines w) \<Longrightarrow>
      awaits (goroutines w ! k) tc \<Longrightarrow> \<not> takes (goroutines w ! j) tc"
    using sync.IH by (simp add: separate_def)
  from sync.hyps(2) sync.IH f4 show ?case
    by (cases rule: sync_cases)
       (auto simp: separate_def count_update nth_simps split: if_splits)
next
  case (tick w n w')
  from tick.hyps(2) tick.IH show ?case
    by (cases rule: tick_cases) (auto simp: separate_def)
qed

lemma keyed_reachable: "reachable w \<Longrightarrow> keyed w"
proof (induction rule: reachable_invariant)
  case (boot r)
  show ?case by (simp add: keyed_def boot_def New_def)
next
  case (call w c)
  then show ?case by (auto simp: keyed_def spawn_def nth_simps)
next
  case (run w i w')
  from run.hyps(1) have "exclusive w" by (rule exclusive_reachable)
  then have "length (filter holds_lock (goroutines w)) \<le> 1"
    by (simp add: exclusive_def split: if_splits)
  then have alone: "\<And>j. i < length (goroutines w) \<Longrightarrow> j < length (goroutines w) \<Longrightarrow>
      holds_lock (goroutines w ! i) \<Longrightarrow> holds_lock (goroutines w ! j) \<Longrightarrow> i = j"
    by (rule count_unique)
  have mine: "\<And>c t0 p. i < length (goroutines w) \<Longrightarrow> goroutines w ! i = Waiter c t0 p \<Longrightarrow>
      binding (slots w) (client_of c) p"
    using run.IH by (simp add: keyed_def)
  from run.hyps(2) show ?case
  proof (cases rule: run_cases)
    case (Store c t0 ch)
    have "binding ((slots w)(client_of c \<mapsto> ch)) (client_of c') p"
      if "j < length (goroutines w)" "j \<noteq> i" "goroutines w ! j = Waiter c' t' p" for j c' t' p
    proof -
      from that run.IH have b: "binding (slots w) (client_of c') p" by (simp add: keyed_def)
      from that Store alone [of j] have nl: "\<not> holds_lock (Waiter c' t' p)" by auto
      from Store mine have "slots w (client_of c) = None" by auto
      with b nl show ?thesis by (cases p) auto
    qed
    with Store show ?thesis
      by (auto simp: keyed_def nth_simps split: if_splits)
  qed (use run.IH mine in \<open>auto simp: keyed_def nth_simps split: if_splits\<close>)
next
  case (sync w i j w')
  from sync.hyps(2) sync.IH show ?case
    by (cases rule: sync_cases)
       (auto simp: keyed_def nth_simps split: if_splits)
next
  case (tick w n w')
  from tick.hyps(2) tick.IH show ?case
    by (cases rule: tick_cases) (auto simp: keyed_def)
qed

lemma run_enabled:
  "i < length (goroutines w) \<Longrightarrow> goroutines w ! i = Waiter c t0 p \<Longrightarrow> \<not> blocked p \<Longrightarrow>
   run i w \<noteq> None"
  by (cases p) (auto simp: run_def split: option.splits)

lemma lock_enabled:
  "i < length (goroutines w) \<Longrightarrow> goroutines w ! i = Waiter c t0 Lock \<Longrightarrow> \<not> mutex w \<Longrightarrow>
   run i w \<noteq> None"
  by (auto simp: run_def)


lemma holder_enabled:
  assumes "i < length (goroutines w)" "holds_lock (goroutines w ! i)"
  shows "run i w \<noteq> None"
proof (cases "goroutines w ! i")
  case (Waiter c t0 p)
  with assms(2) have "\<not> blocked p" by (cases p) auto
  with assms(1) Waiter show ?thesis by (rule run_enabled)
next
  case (Sleeper t ch)
  with assms(2) show ?thesis by simp
next
  case (Sender ch)
  with assms(2) show ?thesis by simp
next
  case Finished
  with assms(2) show ?thesis by simp
qed

lemma blocked_cases:
  "blocked p \<Longrightarrow> p = Lock \<or> (\<exists>tok tc. p = Select tok tc) \<or> (\<exists>t r. p = Return t r)"
  by (cases p) auto


lemma sole_owner:
  "one_owner w \<Longrightarrow> i < length (goroutines w) \<Longrightarrow> k < length (goroutines w) \<Longrightarrow>
   owes (goroutines w ! i) ch \<Longrightarrow> owes (goroutines w ! k) ch \<Longrightarrow> k = i"
  unfolding one_owner_def
  using count_unique [of "\<lambda>g. owes g ch" "goroutines w" k i] by simp

lemma sole_owner_count:
  assumes "one_owner w" "i < length (goroutines w)" "owes (goroutines w ! i) ch"
  shows "length (filter (\<lambda>g. owes g ch) (goroutines w)) = 1"
proof -
  have "0 < length (filter (\<lambda>g. owes g ch) (goroutines w))"
    using assms(2,3) by (rule count_pos)
  moreover have "length (filter (\<lambda>g. owes g ch) (goroutines w)) \<le> 1"
    using assms(1) by (simp add: one_owner_def)
  ultimately show ?thesis by linarith
qed

lemma sole_awaiter:
  "separate w \<Longrightarrow> i < length (goroutines w) \<Longrightarrow> k < length (goroutines w) \<Longrightarrow>
   awaits (goroutines w ! i) tc \<Longrightarrow> awaits (goroutines w ! k) tc \<Longrightarrow> k = i"
  unfolding separate_def
  using count_unique [of "\<lambda>g. awaits g tc" "goroutines w" k i] by simp

lemma not_taken:
  "separate w \<Longrightarrow> i < length (goroutines w) \<Longrightarrow> k < length (goroutines w) \<Longrightarrow>
   awaits (goroutines w ! i) tc \<Longrightarrow> \<not> takes (goroutines w ! k) tc"
  by (simp add: separate_def)

lemma timely_run:
  assumes "run i w = Some w'" "timely w"
  shows "timely w'"
  using assms
  by (cases rule: run_cases)
     (auto simp: timely_def nth_simps wake_def split: if_splits)

lemma timely_sync:
  assumes "sync i j w = Some w'" "timely w" "armed w"
  shows "timely w'"
  using assms(1)
proof (cases rule: sync_cases)
  case (Token c t0 tok tc)
  with assms(2) show ?thesis
    by (auto simp: timely_def nth_simps split: if_splits)
next
  case (Timeout c t0 tok tc)
  from assms(3) Timeout(1,2,3,4) have "t0 + max 0 (rate w) \<le> clock w"
    by (auto simp: armed_def)
  moreover from assms(2) Timeout(2,4) have "t0 \<le> clock w"
    by (auto simp: timely_def)
  ultimately show ?thesis using Timeout assms(2)
    by (auto simp: timely_def nth_simps split: if_splits)
qed

lemma punctual_later: "punctual now d g \<Longrightarrow> now \<le> now' \<Longrightarrow> punctual now' d g"
proof (cases g)
  case (Waiter c t0 p)
  then show "punctual now d g \<Longrightarrow> now \<le> now' \<Longrightarrow> punctual now' d g"
    by (cases p) auto
qed auto

lemma timely_tick:
  assumes "tick n w = Some w'" "timely w"
  shows "timely w'"
  using assms
  by (cases rule: tick_cases) (auto simp: timely_def intro: punctual_later)

lemma armed_run:
  assumes "run i w = Some w'" "armed w" "timely w" "one_owner w" "separate w" "made w"
  shows "armed w'"
proof -
  have a: "\<And>j c t0 tok tc. j < length (goroutines w) \<Longrightarrow>
      goroutines w ! j = Waiter c t0 (Select tok tc) \<Longrightarrow>
      length (filter (\<lambda>g. owes g tc) (goroutines w)) = 1"
    and b: "\<And>j c t0 tok tc k t. j < length (goroutines w) \<Longrightarrow>
      goroutines w ! j = Waiter c t0 (Select tok tc) \<Longrightarrow> k < length (goroutines w) \<Longrightarrow>
      goroutines w ! k = Sleeper t tc \<Longrightarrow> t0 + max 0 (rate w) \<le> t"
    and d: "\<And>j c t0 tok tc k. j < length (goroutines w) \<Longrightarrow>
      goroutines w ! j = Waiter c t0 (Select tok tc) \<Longrightarrow> k < length (goroutines w) \<Longrightarrow>
      goroutines w ! k = Sender tc \<Longrightarrow> t0 + max 0 (rate w) \<le> clock w"
    using assms(2) by (auto simp: armed_def)
  have t: "i < length (goroutines w) \<Longrightarrow> punctual (clock w) (rate w) (goroutines w ! i)"
    using assms(3) by (simp add: timely_def)
  have o: "\<And>k ch. i < length (goroutines w) \<Longrightarrow> k < length (goroutines w) \<Longrightarrow>
      owes (goroutines w ! i) ch \<Longrightarrow> owes (goroutines w ! k) ch \<Longrightarrow> k = i"
    using sole_owner [OF assms(4)] by blast
  have oc: "\<And>ch. i < length (goroutines w) \<Longrightarrow> owes (goroutines w ! i) ch \<Longrightarrow>
      length (filter (\<lambda>g. owes g ch) (goroutines w)) = 1"
    using sole_owner_count [OF assms(4)] by blast
  have s: "\<And>k tc. i < length (goroutines w) \<Longrightarrow> k < length (goroutines w) \<Longrightarrow>
      awaits (goroutines w ! i) tc \<Longrightarrow> awaits (goroutines w ! k) tc \<Longrightarrow> k = i"
    using sole_awaiter [OF assms(5)] by blast
  have n: "\<And>k tc. i < length (goroutines w) \<Longrightarrow> k < length (goroutines w) \<Longrightarrow>
      awaits (goroutines w ! k) tc \<Longrightarrow> \<not> takes (goroutines w ! i) tc"
    using not_taken [OF assms(5)] by blast
  from assms(1) show ?thesis
  proof (cases rule: run_cases)
    case (Lock c t0)
    then show ?thesis using a b d
      by (auto simp: armed_def count_update nth_simps split: if_splits)
  next
    case (Hit c t0 ch)
    then show ?thesis using a b d
      by (auto simp: armed_def count_update nth_simps split: if_splits)
  next
    case (Miss c t0)
    then show ?thesis using a b d
      by (auto simp: armed_def count_update nth_simps split: if_splits)
  next
    case (Make c t0)
    show ?thesis unfolding armed_def
    proof (intro allI impI)
      fix j c' t' tok tc
      assume j: "j < length (goroutines w')"
        and sel: "goroutines w' ! j = Waiter c' t' (Select tok tc)"
      from Make j sel have j': "j < length (goroutines w)"
        "goroutines w ! j = Waiter c' t' (Select tok tc)"
        by (auto simp: nth_simps split: if_splits)
      then have "tc \<noteq> nchans w" using made_nth [OF assms(6), of j tc] by simp
      with a [OF j'] b [OF j'] d [OF j'] Make
      show "length (filter (\<lambda>g. owes g tc) (goroutines w')) = 1 \<and>
          (\<forall>k<length (goroutines w'). \<forall>t.
             goroutines w' ! k = Sleeper t tc \<longrightarrow> t' + max 0 (rate w') \<le> t) \<and>
          (\<forall>k<length (goroutines w').
             goroutines w' ! k = Sender tc \<longrightarrow> t' + max 0 (rate w') \<le> clock w')"
        by (auto simp: count_update nth_simps split: if_splits)
    qed
  next
    case (GoFirst c t0 ch)
    show ?thesis unfolding armed_def
    proof (intro allI impI)
      fix j c' t' tok tc
      assume j: "j < length (goroutines w')"
        and sel: "goroutines w' ! j = Waiter c' t' (Select tok tc)"
      from GoFirst j sel have j': "j < length (goroutines w)"
        "goroutines w ! j = Waiter c' t' (Select tok tc)"
        by (auto simp: nth_simps split: if_splits)
      then have "awaits (goroutines w ! j) tc" by simp
      from n [OF GoFirst(1) j'(1) this] GoFirst(2) have ne: "tc \<noteq> ch" by auto
      with a [OF j'] b [OF j'] d [OF j'] GoFirst
      show "length (filter (\<lambda>g. owes g tc) (goroutines w')) = 1 \<and>
          (\<forall>k<length (goroutines w'). \<forall>t.
             goroutines w' ! k = Sleeper t tc \<longrightarrow> t' + max 0 (rate w') \<le> t) \<and>
          (\<forall>k<length (goroutines w').
             goroutines w' ! k = Sender tc \<longrightarrow> t' + max 0 (rate w') \<le> clock w')"
        by (auto simp: count_update nth_simps split: if_splits)
    qed
  next
    case (Store c t0 ch)
    then show ?thesis using a b d
      by (auto simp: armed_def count_update nth_simps split: if_splits)
  next
    case (Unlock c t0 ch)
    then show ?thesis using a b d
      by (auto simp: armed_def count_update nth_simps split: if_splits)
  next
    case (MakeTimeout c t0 ch)
    show ?thesis unfolding armed_def
    proof (intro allI impI)
      fix j c' t' tok tc
      assume j: "j < length (goroutines w')"
        and sel: "goroutines w' ! j = Waiter c' t' (Select tok tc)"
      from MakeTimeout j sel have j': "j < length (goroutines w)"
        "goroutines w ! j = Waiter c' t' (Select tok tc)"
        by (auto simp: nth_simps split: if_splits)
      then have "tc \<noteq> nchans w" using made_nth [OF assms(6), of j tc] by simp
      with a [OF j'] b [OF j'] d [OF j'] MakeTimeout
      show "length (filter (\<lambda>g. owes g tc) (goroutines w')) = 1 \<and>
          (\<forall>k<length (goroutines w'). \<forall>t.
             goroutines w' ! k = Sleeper t tc \<longrightarrow> t' + max 0 (rate w') \<le> t) \<and>
          (\<forall>k<length (goroutines w').
             goroutines w' ! k = Sender tc \<longrightarrow> t' + max 0 (rate w') \<le> clock w')"
        by (auto simp: count_update nth_simps split: if_splits)
    qed
  next
    case (GoTimeout c t0 ch tc)
    let ?gs = "goroutines w"
    have len: "length (goroutines w') = Suc (length ?gs)" using GoTimeout by simp
    have now: "t0 \<le> clock w" using t GoTimeout by simp
    have one: "length (filter (\<lambda>g. owes g tc) ?gs) = 1" using oc GoTimeout by simp
    have rate: "rate w' = rate w" "clock w' = clock w" using GoTimeout by simp_all
    have nth: "\<And>k. k < Suc (length ?gs) \<Longrightarrow> goroutines w' ! k =
        (if k = i then Waiter c t0 (Select ch tc)
         else if k = length ?gs then Sleeper (wake w) tc else ?gs ! k)"
      using GoTimeout by (simp add: nth_spawned)
    have count: "\<And>x. length (filter (\<lambda>g. owes g x) (goroutines w')) =
        length (filter (\<lambda>g. owes g x) ?gs)"
      using GoTimeout one by (auto simp: count_update nth_append)
    show ?thesis unfolding armed_def
    proof (intro allI impI)
      fix j c' t' tok tc'
      assume j: "j < length (goroutines w')"
        and sel: "goroutines w' ! j = Waiter c' t' (Select tok tc')"
      show "length (filter (\<lambda>g. owes g tc') (goroutines w')) = 1 \<and>
          (\<forall>k<length (goroutines w'). \<forall>t.
             goroutines w' ! k = Sleeper t tc' \<longrightarrow> t' + max 0 (rate w') \<le> t) \<and>
          (\<forall>k<length (goroutines w').
             goroutines w' ! k = Sender tc' \<longrightarrow> t' + max 0 (rate w') \<le> clock w')"
      proof (cases "j = i")
        case True
        with sel nth [of i] GoTimeout(1) have eq: "c' = c" "t' = t0" "tok = ch" "tc' = tc"
          by simp_all
        have "t0 + max 0 (rate w) \<le> t"
          if k: "k < Suc (length ?gs)" and sl: "goroutines w' ! k = Sleeper t tc" for k t
        proof (cases "k = length ?gs")
          case True
          with sl nth [OF k] GoTimeout(1) now show ?thesis by (auto simp: wake_def)
        next
          case False
          with sl nth [OF k] k have k': "k < length ?gs" "k \<noteq> i" "?gs ! k = Sleeper t tc"
            by (auto split: if_splits)
          with o [of k tc] GoTimeout show ?thesis by simp
        qed
        moreover have "t0 + max 0 (rate w) \<le> clock w"
          if k: "k < Suc (length ?gs)" and sl: "goroutines w' ! k = Sender tc" for k
        proof -
          from sl nth [OF k] k have k': "k < length ?gs" "k \<noteq> i" "?gs ! k = Sender tc"
            by (auto split: if_splits)
          with o [of k tc] GoTimeout show ?thesis by simp
        qed
        ultimately show ?thesis using eq one count len rate by simp
      next
        case False
        with sel nth [of j] j len have j': "j < length ?gs" "?gs ! j = Waiter c' t' (Select tok tc')"
          by (auto split: if_splits)
        with s [of j tc'] GoTimeout False have ne: "tc' \<noteq> tc" by auto
        have "t' + max 0 (rate w) \<le> t"
          if k: "k < Suc (length ?gs)" and sl: "goroutines w' ! k = Sleeper t tc'" for k t
        proof -
          from sl nth [OF k] ne k have "k < length ?gs" "?gs ! k = Sleeper t tc'"
            by (auto split: if_splits)
          with b [OF j'] show ?thesis by simp
        qed
        moreover have "t' + max 0 (rate w) \<le> clock w"
          if k: "k < Suc (length ?gs)" and sl: "goroutines w' ! k = Sender tc'" for k
        proof -
          from sl nth [OF k] ne k have "k < length ?gs" "?gs ! k = Sender tc'"
            by (auto split: if_splits)
          with d [OF j'] show ?thesis by simp
        qed
        ultimately show ?thesis using a [OF j'] count len rate by simp
      qed
    qed
  next
    case (GoNext c t0 ch t)
    show ?thesis unfolding armed_def
    proof (intro allI impI)
      fix j c' t' tok tc
      assume j: "j < length (goroutines w')"
        and sel: "goroutines w' ! j = Waiter c' t' (Select tok tc)"
      from GoNext j sel have j': "j < length (goroutines w)"
        "goroutines w ! j = Waiter c' t' (Select tok tc)"
        by (auto simp: nth_simps split: if_splits)
      then have "awaits (goroutines w ! j) tc" by simp
      from n [OF GoNext(1) j'(1) this] GoNext(2) have ne: "tc \<noteq> ch" by auto
      with a [OF j'] b [OF j'] d [OF j'] GoNext
      show "length (filter (\<lambda>g. owes g tc) (goroutines w')) = 1 \<and>
          (\<forall>k<length (goroutines w'). \<forall>t.
             goroutines w' ! k = Sleeper t tc \<longrightarrow> t' + max 0 (rate w') \<le> t) \<and>
          (\<forall>k<length (goroutines w').
             goroutines w' ! k = Sender tc \<longrightarrow> t' + max 0 (rate w') \<le> clock w')"
        by (auto simp: count_update nth_simps split: if_splits)
    qed
  next
    case (Wake t ch)
    show ?thesis unfolding armed_def
    proof (intro allI impI)
      fix j c' t' tok tc
      assume j: "j < length (goroutines w')"
        and sel: "goroutines w' ! j = Waiter c' t' (Select tok tc)"
      from Wake j sel have j': "j < length (goroutines w)"
        "goroutines w ! j = Waiter c' t' (Select tok tc)"
        by (auto simp: nth_simps split: if_splits)
      have "length (filter (\<lambda>g. owes g tc) (goroutines w')) =
          length (filter (\<lambda>g. owes g tc) (goroutines w))"
        using Wake count_pos [of i "goroutines w" "\<lambda>g. owes g tc"]
        by (auto simp: count_update)
      moreover have "t' + max 0 (rate w) \<le> clock w" if "ch = tc"
        using b [OF j' Wake(1)] Wake(2,3) that by simp
      ultimately
      show "length (filter (\<lambda>g. owes g tc) (goroutines w')) = 1 \<and>
          (\<forall>k<length (goroutines w'). \<forall>t.
             goroutines w' ! k = Sleeper t tc \<longrightarrow> t' + max 0 (rate w') \<le> t) \<and>
          (\<forall>k<length (goroutines w').
             goroutines w' ! k = Sender tc \<longrightarrow> t' + max 0 (rate w') \<le> clock w')"
        using a [OF j'] b [OF j'] d [OF j'] Wake
        by (auto simp: nth_simps split: if_splits)
    qed
  qed
qed

lemma armed_sync:
  assumes "sync i j w = Some w'" "armed w" "separate w"
  shows "armed w'"
proof -
  have a: "\<And>j c t0 tok tc. j < length (goroutines w) \<Longrightarrow>
      goroutines w ! j = Waiter c t0 (Select tok tc) \<Longrightarrow>
      length (filter (\<lambda>g. owes g tc) (goroutines w)) = 1"
    and b: "\<And>j c t0 tok tc k t. j < length (goroutines w) \<Longrightarrow>
      goroutines w ! j = Waiter c t0 (Select tok tc) \<Longrightarrow> k < length (goroutines w) \<Longrightarrow>
      goroutines w ! k = Sleeper t tc \<Longrightarrow> t0 + max 0 (rate w) \<le> t"
    and d: "\<And>j c t0 tok tc k. j < length (goroutines w) \<Longrightarrow>
      goroutines w ! j = Waiter c t0 (Select tok tc) \<Longrightarrow> k < length (goroutines w) \<Longrightarrow>
      goroutines w ! k = Sender tc \<Longrightarrow> t0 + max 0 (rate w) \<le> clock w"
    using assms(2) by (auto simp: armed_def)
  have s: "\<And>k tc. j < length (goroutines w) \<Longrightarrow> k < length (goroutines w) \<Longrightarrow> k \<noteq> j \<Longrightarrow>
      awaits (goroutines w ! j) tc \<Longrightarrow> \<not> awaits (goroutines w ! k) tc"
    using sole_awaiter [OF assms(3)] by blast
  have n: "\<And>k tc. j < length (goroutines w) \<Longrightarrow> k < length (goroutines w) \<Longrightarrow>
      awaits (goroutines w ! k) tc \<Longrightarrow> \<not> takes (goroutines w ! j) tc"
    using not_taken [OF assms(3)] by blast
  from assms(1) show ?thesis
  proof (cases rule: sync_cases)
    case (Token c t0 tok tc)
    show ?thesis unfolding armed_def
    proof (intro allI impI)
      fix m c' t' tok' tc'
      assume m: "m < length (goroutines w')"
        and sel: "goroutines w' ! m = Waiter c' t' (Select tok' tc')"
      from Token m sel have m': "m < length (goroutines w)"
        "goroutines w ! m = Waiter c' t' (Select tok' tc')" "m \<noteq> j" "m \<noteq> i"
        by (auto simp: nth_simps split: if_splits)
      then have "awaits (goroutines w ! m) tc'" by simp
      from n [OF Token(2) m'(1) this] Token(4) have ne: "tc' \<noteq> tok" by auto
      with a [OF m'(1,2)] b [OF m'(1,2)] d [OF m'(1,2)] Token
      show "length (filter (\<lambda>g. owes g tc') (goroutines w')) = 1 \<and>
          (\<forall>k<length (goroutines w'). \<forall>t.
             goroutines w' ! k = Sleeper t tc' \<longrightarrow> t' + max 0 (rate w') \<le> t) \<and>
          (\<forall>k<length (goroutines w').
             goroutines w' ! k = Sender tc' \<longrightarrow> t' + max 0 (rate w') \<le> clock w')"
        by (auto simp: count_update nth_simps split: if_splits)
    qed
  next
    case (Timeout c t0 tok tc)
    show ?thesis unfolding armed_def
    proof (intro allI impI)
      fix m c' t' tok' tc'
      assume m: "m < length (goroutines w')"
        and sel: "goroutines w' ! m = Waiter c' t' (Select tok' tc')"
      from Timeout m sel have m': "m < length (goroutines w)"
        "goroutines w ! m = Waiter c' t' (Select tok' tc')" "m \<noteq> j" "m \<noteq> i"
        by (auto simp: nth_simps split: if_splits)
      have "awaits (goroutines w ! j) tc" using Timeout by simp
      from s [OF Timeout(2) m'(1,3) this] m'(2) have ne: "tc' \<noteq> tc" by auto
      with a [OF m'(1,2)] b [OF m'(1,2)] d [OF m'(1,2)] Timeout
      show "length (filter (\<lambda>g. owes g tc') (goroutines w')) = 1 \<and>
          (\<forall>k<length (goroutines w'). \<forall>t.
             goroutines w' ! k = Sleeper t tc' \<longrightarrow> t' + max 0 (rate w') \<le> t) \<and>
          (\<forall>k<length (goroutines w').
             goroutines w' ! k = Sender tc' \<longrightarrow> t' + max 0 (rate w') \<le> clock w')"
        by (auto simp: count_update nth_simps split: if_splits)
    qed
  qed
qed

lemma armed_tick:
  assumes "tick n w = Some w'" "armed w"
  shows "armed w'"
  using assms(1)
proof (cases rule: tick_cases)
  case Tick
  show ?thesis unfolding armed_def
  proof (intro allI impI)
    fix j c t0 tok tc
    assume "j < length (goroutines w')" "goroutines w' ! j = Waiter c t0 (Select tok tc)"
    with Tick have j: "j < length (goroutines w)" "goroutines w ! j = Waiter c t0 (Select tok tc)"
      by simp_all
    with assms(2) have "length (filter (\<lambda>g. owes g tc) (goroutines w)) = 1"
      "\<forall>k<length (goroutines w). \<forall>t.
         goroutines w ! k = Sleeper t tc \<longrightarrow> t0 + max 0 (rate w) \<le> t"
      "\<forall>k<length (goroutines w).
         goroutines w ! k = Sender tc \<longrightarrow> t0 + max 0 (rate w) \<le> clock w"
      unfolding armed_def by blast+
    with Tick
    show "length (filter (\<lambda>g. owes g tc) (goroutines w')) = 1 \<and>
        (\<forall>k<length (goroutines w'). \<forall>t.
           goroutines w' ! k = Sleeper t tc \<longrightarrow> t0 + max 0 (rate w') \<le> t) \<and>
        (\<forall>k<length (goroutines w').
           goroutines w' ! k = Sender tc \<longrightarrow> t0 + max 0 (rate w') \<le> clock w')"
      by auto
  qed
qed

lemma timed_reachable: "reachable w \<Longrightarrow> timely w \<and> armed w"
proof (induction rule: reachable_invariant)
  case (boot r)
  show ?case by (simp add: timely_def armed_def boot_def)
next
  case (call w c)
  then show ?case
    by (auto simp: timely_def armed_def spawn_def nth_simps)
next
  case (run w i w')
  from run.hyps(1) have "one_owner w" "separate w" "made w"
    by (rule one_owner_reachable separate_reachable made_reachable)+
  with run.hyps(2) run.IH show ?case
    by (auto intro: timely_run armed_run)
next
  case (sync w i j w')
  from sync.hyps(1) have "separate w" by (rule separate_reachable)
  with sync.hyps(2) sync.IH show ?case
    by (auto intro: timely_sync armed_sync)
next
  case (tick w n w')
  with tick.hyps(2) tick.IH show ?case
    by (auto intro: timely_tick armed_tick)
qed

lemma owes_run:
  assumes "run i w = Some w'" "ch < nchans w"
  shows "length (filter (\<lambda>g. owes g ch) (goroutines w')) =
         length (filter (\<lambda>g. owes g ch) (goroutines w))"
proof -
  have pos: "i < length (goroutines w) \<Longrightarrow> owes (goroutines w ! i) ch \<Longrightarrow>
      0 < length (filter (\<lambda>g. owes g ch) (goroutines w))"
    by (rule count_pos)
  from assms pos show ?thesis
    by (cases rule: run_cases) (auto simp: count_update nth_append)
qed

lemma owes_sync:
  assumes "sync i j w = Some w'" "\<not> awaits (goroutines w ! j) ch"
  shows "length (filter (\<lambda>g. owes g ch) (goroutines w')) =
         length (filter (\<lambda>g. owes g ch) (goroutines w))"
proof -
  have pos: "i < length (goroutines w) \<Longrightarrow> owes (goroutines w ! i) ch \<Longrightarrow>
      0 < length (filter (\<lambda>g. owes g ch) (goroutines w))"
    by (rule count_pos)
  from assms pos show ?thesis
    by (cases rule: sync_cases) (auto simp: count_update nth_simps)
qed

lemma stocked_run:
  assumes "run i w = Some w'" "stocked w" "made w"
  shows "stocked w'"
proof -
  have s1: "\<And>k ch. slots w k = Some ch \<Longrightarrow>
      length (filter (\<lambda>g. owes g ch) (goroutines w)) = 1"
    and s2: "\<And>m ch. m < length (goroutines w) \<Longrightarrow> takes (goroutines w ! m) ch \<Longrightarrow>
      length (filter (\<lambda>g. owes g ch) (goroutines w)) = 1"
    using assms(2) by (auto simp: stocked_def)
  have keep: "\<And>ch. ch < nchans w \<Longrightarrow>
      length (filter (\<lambda>g. owes g ch) (goroutines w')) =
      length (filter (\<lambda>g. owes g ch) (goroutines w))"
    using assms(1) by (rule owes_run)
  have lt1: "\<And>k ch. slots w k = Some ch \<Longrightarrow> ch < nchans w"
    using assms(3) by (rule made_slot)
  have lt2: "\<And>m ch. m < length (goroutines w) \<Longrightarrow> takes (goroutines w ! m) ch \<Longrightarrow>
      ch < nchans w"
    using made_nth [OF assms(3)] takes_refers by blast
  have fresh: "length (filter (\<lambda>g. owes g (nchans w)) (goroutines w)) = 0"
    using assms(3) by (rule made_fresh_owes) simp
  have old1: "length (filter (\<lambda>g. owes g ch) (goroutines w')) = 1" if "slots w k = Some ch" for k ch
    using keep [OF lt1 [OF that]] s1 [OF that] by simp
  have old2: "length (filter (\<lambda>g. owes g ch) (goroutines w')) = 1"
    if "m < length (goroutines w)" "takes (goroutines w ! m) ch" for m ch
    using keep [OF lt2 [OF that]] s2 [OF that] by simp
  have mine: "\<And>ch. i < length (goroutines w) \<Longrightarrow> takes (goroutines w ! i) ch \<Longrightarrow>
      length (filter (\<lambda>g. owes g ch) (goroutines w')) = 1"
    by (rule old2)
  from assms(1) show ?thesis
  proof (cases rule: run_cases)
    case (Make c t0)
    have new: "length (filter (\<lambda>g. owes g (nchans w)) (goroutines w')) = 1"
      using Make fresh by (simp add: count_update)
    from Make old1 old2 new show ?thesis
      by (auto simp: stocked_def nth_simps split: if_splits)
  next
    case (Store c t0 ch)
    from Store mine have "length (filter (\<lambda>g. owes g ch) (goroutines w')) = 1" by simp
    with Store old1 old2 show ?thesis
      by (auto simp: stocked_def nth_simps split: if_splits)
  next
    case (Hit c t0 ch)
    from Hit old1 have "length (filter (\<lambda>g. owes g ch) (goroutines w')) = 1" by simp
    with Hit old1 old2 show ?thesis
      by (auto simp: stocked_def nth_simps split: if_splits)
  next
    case (Lock c t0)
    with old1 old2 show ?thesis
      by (auto simp: stocked_def nth_simps split: if_splits)
  next
    case (Miss c t0)
    with old1 old2 show ?thesis
      by (auto simp: stocked_def nth_simps split: if_splits)
  next
    case (GoFirst c t0 ch)
    from GoFirst mine have "length (filter (\<lambda>g. owes g ch) (goroutines w')) = 1" by simp
    with GoFirst old1 old2 show ?thesis
      by (auto simp: stocked_def nth_simps split: if_splits)
  next
    case (Unlock c t0 ch)
    from Unlock mine have "length (filter (\<lambda>g. owes g ch) (goroutines w')) = 1" by simp
    with Unlock old1 old2 show ?thesis
      by (auto simp: stocked_def nth_simps split: if_splits)
  next
    case (MakeTimeout c t0 ch)
    from MakeTimeout mine have "length (filter (\<lambda>g. owes g ch) (goroutines w')) = 1" by simp
    with MakeTimeout old1 old2 show ?thesis
      by (auto simp: stocked_def nth_simps split: if_splits)
  next
    case (GoTimeout c t0 ch tc)
    from GoTimeout mine have "length (filter (\<lambda>g. owes g ch) (goroutines w')) = 1" by simp
    with GoTimeout old1 old2 show ?thesis
      by (auto simp: stocked_def nth_simps split: if_splits)
  next
    case (GoNext c t0 ch t)
    with old1 old2 show ?thesis
      by (auto simp: stocked_def nth_simps split: if_splits)
  next
    case (Wake t ch)
    with old1 old2 show ?thesis
      by (auto simp: stocked_def nth_simps split: if_splits)
  qed
qed

lemma stocked_sync:
  assumes "sync i j w = Some w'" "stocked w" "separate w"
  shows "stocked w'"
proof -
  have s1: "\<And>k ch. slots w k = Some ch \<Longrightarrow>
      length (filter (\<lambda>g. owes g ch) (goroutines w)) = 1"
    and s2: "\<And>m ch. m < length (goroutines w) \<Longrightarrow> takes (goroutines w ! m) ch \<Longrightarrow>
      length (filter (\<lambda>g. owes g ch) (goroutines w)) = 1"
    using assms(2) by (auto simp: stocked_def)
  from assms(1) have j: "j < length (goroutines w)" by (cases rule: sync_cases)
  have old1: "length (filter (\<lambda>g. owes g ch) (goroutines w')) = 1" if "slots w k = Some ch" for k ch
  proof -
    from assms(3) j that have "\<not> awaits (goroutines w ! j) ch" by (auto simp: separate_def)
    with assms(1) s1 [OF that] show ?thesis by (simp add: owes_sync)
  qed
  have old2: "length (filter (\<lambda>g. owes g ch) (goroutines w')) = 1"
    if "m < length (goroutines w)" "takes (goroutines w ! m) ch" for m ch
  proof -
    from assms(3) j that have "\<not> awaits (goroutines w ! j) ch"
      using not_taken by blast
    with assms(1) s2 [OF that] show ?thesis by (simp add: owes_sync)
  qed
  have mine: "\<And>ch. takes (goroutines w ! j) ch \<Longrightarrow>
      length (filter (\<lambda>g. owes g ch) (goroutines w')) = 1"
    using old2 [OF j] .
  from assms(1) show ?thesis
  proof (cases rule: sync_cases)
    case (Token c t0 tok tc)
    from Token mine have "length (filter (\<lambda>g. owes g tok) (goroutines w')) = 1" by simp
    with Token old1 old2 show ?thesis
      by (auto simp: stocked_def nth_simps split: if_splits)
  next
    case (Timeout c t0 tok tc)
    with old1 old2 show ?thesis
      by (auto simp: stocked_def nth_simps split: if_splits)
  qed
qed

lemma stocked_reachable: "reachable w \<Longrightarrow> stocked w"
proof (induction rule: reachable_invariant)
  case (boot r)
  show ?case by (simp add: stocked_def boot_def New_def)
next
  case (call w c)
  then show ?case by (auto simp: stocked_def spawn_def nth_simps)
next
  case (run w i w')
  from run.hyps(1) have "made w" by (rule made_reachable)
  with run.hyps(2) run.IH show ?case by (rule stocked_run)
next
  case (sync w i j w')
  from sync.hyps(1) have "separate w" by (rule separate_reachable)
  with sync.hyps(2) sync.IH show ?case by (rule stocked_sync)
next
  case (tick w n w')
  from tick.hyps(2) tick.IH show ?case
    by (cases rule: tick_cases) (auto simp: stocked_def)
qed

lemma called_reachable: "reachable w \<Longrightarrow> called w"
proof (induction rule: reachable_invariant)
  case (boot r)
  show ?case by (simp add: called_def boot_def)
next
  case (call w c)
  then show ?case by (auto simp: called_def spawn_def nth_simps)
next
  case (run w i w')
  from run.hyps(2) run.IH show ?case
    by (cases rule: run_cases)
       (auto simp: called_def nth_simps split: if_splits)
next
  case (sync w i j w')
  from sync.hyps(2) sync.IH show ?case
    by (cases rule: sync_cases)
       (auto simp: called_def nth_simps split: if_splits)
next
  case (tick w n w')
  from tick.hyps(2) tick.IH show ?case
    by (cases rule: tick_cases) (auto simp: called_def)
qed

lemma Index_single:
  "Index s [c] = (if c \<in> set s then Some (length (takeWhile (\<lambda>x. x \<noteq> c) s)) else None)"
  by (induction s) auto

lemma Split_single_hd:
  "c \<in> set s \<Longrightarrow> \<exists>rest. rest \<noteq> [] \<and> Split s [c] = takeWhile (\<lambda>x. x \<noteq> c) s # rest"
proof -
  assume "c \<in> set s"
  then have "Split s [c] =
      take (length (takeWhile (\<lambda>x. x \<noteq> c) s)) s #
      Split (drop (length (takeWhile (\<lambda>x. x \<noteq> c) s) + length [c]) s) [c]"
    by (subst Split.simps) (simp add: Index_single)
  moreover have "Split t [c] \<noteq> []" for t
    by (subst Split.simps) (simp add: Index_single)
  moreover have "take (length (takeWhile (\<lambda>x. x \<noteq> c) s)) s = takeWhile (\<lambda>x. x \<noteq> c) s"
    by (metis takeWhile_eq_take)
  ultimately show ?thesis by simp
qed

lemma ip4_takeWhile: "ip4 r = takeWhile (\<lambda>x. x \<noteq> CHR '':'') (RemoteAddr r)"
proof (cases "CHR '':'' \<in> set (RemoteAddr r)")
  case True
  then obtain rest where "rest \<noteq> []"
    "Split (RemoteAddr r) '':'' = takeWhile (\<lambda>x. x \<noteq> CHR '':'') (RemoteAddr r) # rest"
    using Split_single_hd by blast
  with True show ?thesis
    by (cases rest) (simp_all add: ip4_def Contains_def Index_single)
next
  case False
  then have "\<forall>x\<in>set (RemoteAddr r). x \<noteq> CHR '':''" by auto
  then have a: "takeWhile (\<lambda>x. x \<noteq> CHR '':'') (RemoteAddr r) = RemoteAddr r"
    by (simp only: takeWhile_eq_all_conv)
  from False have b: "ip4 r = RemoteAddr r"
    by (simp add: ip4_def Contains_def Index_single)
  show ?thesis by (simp only: a b)
qed

lemma exec_reachable: "reachable w \<Longrightarrow> exec as w = Some w' \<Longrightarrow> reachable w'"
  by (induction as arbitrary: w) (auto split: option.splits intro: reachable.step)

lemmas eval_defs = boot_def New_def run_def sync_def spawn_def wake_def tick_def
  client_of_def timeout_error_def to_select_def admitted_def

lemma filter_update_other:
  "i < length xs \<Longrightarrow> \<not> P (xs ! i) \<Longrightarrow> \<not> P x \<Longrightarrow> filter P (xs[i := x]) = filter P xs"
proof (induction xs arbitrary: i)
  case Nil
  then show ?case by simp
next
  case (Cons a xs)
  then show ?case by (cases i) auto
qed

lemma step_stage:
  assumes "step a w = Some w'" "i < length (goroutines w)" "goroutines w ! i = Waiter c t0 p"
  shows "\<exists>p'. goroutines w' ! i = Waiter c t0 p' \<and> (p' = p \<or> stage p < stage p')"
proof (cases a)
  case (Call c')
  with assms show ?thesis by (auto simp: spawn_def nth_append)
next
  case (Run k)
  with assms(1) have "run k w = Some w'" by simp
  then show ?thesis using assms(2,3)
    by (cases rule: run_cases) (auto simp: nth_simps)
next
  case (Sync k j)
  with assms(1) have "sync k j w = Some w'" by simp
  then show ?thesis using assms(2,3)
    by (cases rule: sync_cases) (auto simp: nth_simps)
next
  case (Tick n)
  with assms(1) have "tick n w = Some w'" by simp
  then show ?thesis using assms(2,3)
    by (cases rule: tick_cases) auto
qed

lemma at_select_exec: "exec (to_select (WaitClient ''a'')) (boot 3) = Some at_select"
  by (simp add: eval_defs at_select_def)

lemma at_select_reachable: "reachable at_select"
  by (rule exec_reachable [OF reachable.boot at_select_exec])

lemma step_slots:
  assumes "reachable w" "step a w = Some w'" "slots w k = Some ch"
  shows "slots w' k = Some ch"
proof (cases a)
  case (Call c)
  with assms show ?thesis by (auto simp: spawn_def)
next
  case (Run i)
  with assms(2) have r: "run i w = Some w'" by simp
  from assms(1) have "keyed w" by (rule keyed_reachable)
  then have b: "\<And>c t0 p. i < length (goroutines w) \<Longrightarrow> goroutines w ! i = Waiter c t0 p \<Longrightarrow>
      binding (slots w) (client_of c) p"
    by (simp add: keyed_def)
  from r assms(3) b show ?thesis
    by (cases rule: run_cases) auto
next
  case (Sync i j)
  with assms(2) have "sync i j w = Some w'" by simp
  then show ?thesis using assms(3) by (cases rule: sync_cases) auto
next
  case (Tick n)
  with assms(2) have "tick n w = Some w'" by simp
  then show ?thesis using assms(3) by (cases rule: tick_cases) auto
qed

lemma same_slot:
  assumes "reachable w" "i < length (goroutines w)" "j < length (goroutines w)"
    "goroutines w ! i = Waiter c t0 p" "goroutines w ! j = Waiter c' t0' p'"
    "client_of c = client_of c'" "token_chan p = Some ch" "token_chan p' = Some ch'"
  shows "ch = ch'"
proof -
  from assms(1) have "keyed w" by (rule keyed_reachable)
  with assms(2-5) have b: "binding (slots w) (client_of c) p" "binding (slots w) (client_of c') p'"
    by (auto simp: keyed_def)
  from assms(1) have "exclusive w" by (rule exclusive_reachable)
  then have "length (filter holds_lock (goroutines w)) \<le> 1"
    by (simp add: exclusive_def split: if_splits)
  then have alone: "holds_lock (goroutines w ! i) \<Longrightarrow> holds_lock (goroutines w ! j) \<Longrightarrow> i = j"
    using assms(2,3) by (rule count_unique)
  show ?thesis
  proof (cases "slots w (client_of c)")
    case None
    with b assms(4-8) have "holds_lock (goroutines w ! i)" "holds_lock (goroutines w ! j)"
      by (cases p; cases p'; simp)+
    then have "i = j" by (rule alone)
    with assms(4,5,7,8) show ?thesis by simp
  next
    case (Some x)
    with b assms(6-8) show ?thesis
      by (cases p; cases p'; simp)
  qed
qed

lemma at_both_exec: "exec (both (WaitClient ''a'')) (boot 3) = Some at_both"
  by (simp add: eval_defs both_def at_both_def)

lemma at_both_reachable: "reachable at_both"
  by (rule exec_reachable [OF reachable.boot at_both_exec])

lemma at_go_next_step: "step (Sync 1 0) at_select = Some at_go_next"
  by (simp add: eval_defs at_select_def at_go_next_def)

lemma at_go_next_reachable: "reachable at_go_next"
  by (rule reachable.step [OF at_select_reachable at_go_next_step])

lemma at_return_step: "step (Run 0) at_go_next = Some at_return"
  by (simp add: eval_defs at_go_next_def at_return_def)

lemma at_return_reachable: "reachable at_return"
  by (rule reachable.step [OF at_go_next_reachable at_return_step])

lemma at_due_step: "step (Tick 3) at_return = Some at_due"
  by (simp add: eval_defs at_return_def at_due_def)

lemma at_due_reachable: "reachable at_due"
  by (rule reachable.step [OF at_return_reachable at_due_step])

lemma run_no_error:
  assumes "run k w = Some w'" "j < length (goroutines w)"
    "goroutines w' ! j = Waiter c t0 (Return t (Some e))"
  shows "goroutines w ! j = Waiter c t0 (Return t (Some e))"
  using assms by (cases rule: run_cases) (auto simp: nth_simps split: if_splits)

lemma at_rival_exec: "exec (rival (WaitClient ''a'') @ [Tick 3, Run 5]) (boot 3) = Some at_rival"
  by (simp add: eval_defs rival_def at_rival_def)

lemma at_rival_reachable: "reachable at_rival"
  by (rule exec_reachable [OF reachable.boot at_rival_exec])

lemma at_reject_step: "step (Sync 5 1) at_rival = Some at_reject"
  by (simp add: eval_defs at_rival_def at_reject_def)

lemma abandoned_nth:
  "abandoned w tc =
     (tc < nchans w \<and> (\<forall>client. slots w client \<noteq> Some tc) \<and>
      (\<forall>i<length (goroutines w). \<not> takes (goroutines w ! i) tc \<and> \<not> awaits (goroutines w ! i) tc))"
  by (simp add: abandoned_def list_all_length)

lemma leaked_run:
  assumes "run i w = Some w'" "leaked w k tc"
  shows "leaked w' k tc"
proof -
  from assms(2) have k: "k < length (goroutines w)" "sends_on (goroutines w ! k) tc"
    and tc: "tc < nchans w" "\<And>client. slots w client \<noteq> Some tc"
    and no: "\<And>m. m < length (goroutines w) \<Longrightarrow>
      \<not> takes (goroutines w ! m) tc \<and> \<not> awaits (goroutines w ! m) tc"
    by (auto simp: leaked_def abandoned_nth)
  have noi: "i < length (goroutines w) \<Longrightarrow>
      \<not> takes (goroutines w ! i) tc \<and> \<not> awaits (goroutines w ! i) tc"
    by (rule no)
  from assms(1) k tc no noi show ?thesis
    by (cases rule: run_cases)
       (auto simp: leaked_def abandoned_nth nth_simps split: if_splits)
qed

lemma leaked_sync:
  assumes "sync i j w = Some w'" "leaked w k tc"
  shows "leaked w' k tc"
proof -
  from assms(2) have k: "k < length (goroutines w)" "sends_on (goroutines w ! k) tc"
    and tc: "tc < nchans w" "\<And>client. slots w client \<noteq> Some tc"
    and no: "\<And>m. m < length (goroutines w) \<Longrightarrow>
      \<not> takes (goroutines w ! m) tc \<and> \<not> awaits (goroutines w ! m) tc"
    by (auto simp: leaked_def abandoned_nth)
  have noj: "j < length (goroutines w) \<Longrightarrow>
      \<not> takes (goroutines w ! j) tc \<and> \<not> awaits (goroutines w ! j) tc"
    by (rule no)
  from assms(1) k tc no noj show ?thesis
    by (cases rule: sync_cases)
       (auto simp: leaked_def abandoned_nth nth_simps split: if_splits)
qed

lemma leaked_step:
  assumes "step a w = Some w'" "leaked w k tc"
  shows "leaked w' k tc"
proof (cases a)
  case (Call c)
  with assms show ?thesis
    by (auto simp: leaked_def abandoned_nth spawn_def nth_simps)
next
  case (Run i)
  with assms show ?thesis by (auto intro: leaked_run)
next
  case (Sync i j)
  with assms show ?thesis by (auto intro: leaked_sync)
next
  case (Tick n)
  with assms(1) have "tick n w = Some w'" by simp
  then show ?thesis using assms(2)
    by (cases rule: tick_cases) (auto simp: leaked_def abandoned_nth)
qed

lemma leaked_exec: "exec as w = Some w' \<Longrightarrow> leaked w k tc \<Longrightarrow> leaked w' k tc"
proof (induction as arbitrary: w)
  case Nil
  then show ?case by simp
next
  case (Cons a as)
  from Cons.prems(1) obtain w1 where "step a w = Some w1" "exec as w1 = Some w'"
    by (auto split: option.splits)
  with Cons.IH [of w1] Cons.prems(2) show ?case by (auto dest: leaked_step)
qed

lemma leaked_forever: "leaked w k tc \<Longrightarrow> leaks_forever w k tc"
  unfolding leaks_forever_def by (blast intro: leaked_exec)

lemma at_stuck_exec: "exec [Run 0, Tick 3, Run 2] at_go_next = Some at_stuck"
  by (simp add: eval_defs at_go_next_def at_stuck_def)


lemma offers_ex: "0 < offers w ch \<Longrightarrow> \<exists>i<length (goroutines w). goroutines w ! i = Sender ch"
  unfolding offers_def by (rule count_ex)

lemma first_at_frame:
  assumes "first_at n k w p" "slots w' = slots w"
    "\<And>ch. unshared n k w ch \<Longrightarrow> unshared n k w' ch"
    "\<And>ch. unshared n k w ch \<Longrightarrow> 0 < offers w ch \<Longrightarrow> 0 < offers w' ch"
  shows "first_at n k w' p"
proof (cases p)
  case (Return t r)
  with assms show ?thesis by (cases r) (auto split: option.splits)
qed (use assms in auto)

lemma first_call_call:
  assumes "first_call n c t0 w" "client_of c' \<noteq> client_of c"
  shows "first_call n c t0 (spawn (Waiter c' t Lock) w)"
proof -
  from assms(1) obtain p where n: "n < length (goroutines w)" "goroutines w ! n = Waiter c t0 p"
    and at: "first_at n (client_of c) w p"
    and others: "\<And>i c' t' p'. i < length (goroutines w) \<Longrightarrow> i \<noteq> n \<Longrightarrow>
      goroutines w ! i = Waiter c' t' p' \<Longrightarrow> client_of c' \<noteq> client_of c"
    by (auto simp: first_call_def)
  from at have "first_at n (client_of c) (spawn (Waiter c' t Lock) w) p"
    by (rule first_at_frame) (auto simp: spawn_def unshared_def offers_def nth_simps)
  with n others assms(2) show ?thesis
    by (auto simp: first_call_def spawn_def nth_simps)
qed

lemma first_call_tick:
  assumes "first_call n c t0 w" "tick m w = Some w'"
  shows "first_call n c t0 w'"
proof -
  from assms(1) obtain p where n: "n < length (goroutines w)" "goroutines w ! n = Waiter c t0 p"
    and at: "first_at n (client_of c) w p"
    and others: "\<And>i c' t' p'. i < length (goroutines w) \<Longrightarrow> i \<noteq> n \<Longrightarrow>
      goroutines w ! i = Waiter c' t' p' \<Longrightarrow> client_of c' \<noteq> client_of c"
    by (auto simp: first_call_def)
  from assms(2) have w': "w' = w\<lparr>clock := clock w + m\<rparr>"
    by (cases rule: tick_cases)
  from at have "first_at n (client_of c) w' p"
    by (rule first_at_frame) (auto simp: w' unshared_def offers_def)
  with n others w' show ?thesis by (auto simp: first_call_def)
qed

lemma offers_run: "run i w = Some w' \<Longrightarrow> offers w ch \<le> offers w' ch"
  by (cases rule: run_cases) (auto simp: offers_def count_update nth_simps)

lemma unshared_run_other:
  assumes "run i w = Some w'" "i \<noteq> n" "n < length (goroutines w)"
    "ch < nchans w" "unshared n k w ch"
    "\<And>c' t' p'. goroutines w ! i = Waiter c' t' p' \<Longrightarrow> client_of c' \<noteq> k"
  shows "unshared n k w' ch"
proof -
  from assms(4) have lt: "ch \<noteq> nchans w" by simp
  from assms(5) have sl: "\<And>client. client \<noteq> k \<Longrightarrow> slots w client \<noteq> Some ch"
    and ot: "\<And>m. m < length (goroutines w) \<Longrightarrow> m \<noteq> n \<Longrightarrow>
      \<not> takes (goroutines w ! m) ch \<and> \<not> awaits (goroutines w ! m) ch"
    by (auto simp: unshared_def)
  have me: "i < length (goroutines w) \<Longrightarrow>
      \<not> takes (goroutines w ! i) ch \<and> \<not> awaits (goroutines w ! i) ch"
    using ot assms(2) by blast
  from assms(1) lt sl ot me assms(2,3,6) show ?thesis
    by (cases rule: run_cases)
       (auto simp: unshared_def nth_simps split: if_splits)
qed

lemma unshared_sync_other:
  assumes "sync i j w = Some w'" "unshared n k w ch"
  shows "unshared n k w' ch"
proof -
  from assms(2) have sl: "\<And>client. client \<noteq> k \<Longrightarrow> slots w client \<noteq> Some ch"
    and ot: "\<And>m. m < length (goroutines w) \<Longrightarrow> m \<noteq> n \<Longrightarrow>
      \<not> takes (goroutines w ! m) ch \<and> \<not> awaits (goroutines w ! m) ch"
    by (auto simp: unshared_def)
  have me: "j < length (goroutines w) \<Longrightarrow> j \<noteq> n \<Longrightarrow>
      \<not> takes (goroutines w ! j) ch \<and> \<not> awaits (goroutines w ! j) ch"
    using ot by blast
  from assms(1) sl ot me show ?thesis
    by (cases rule: sync_cases)
       (auto simp: unshared_def nth_simps split: if_splits)
qed

lemma offers_sync_other:
  assumes "sync i j w = Some w'" "j \<noteq> n" "unshared n k w ch"
  shows "offers w' ch = offers w ch"
proof -
  from assms(3) have ot: "j < length (goroutines w) \<Longrightarrow>
      \<not> takes (goroutines w ! j) ch \<and> \<not> awaits (goroutines w ! j) ch"
    using assms(2) by (auto simp: unshared_def)
  from assms(1) ot show ?thesis
    by (cases rule: sync_cases)
       (auto simp: offers_def count_update nth_simps split: if_splits)
qed

lemma sync_same_call:
  assumes "sync i j w = Some w'" "goroutines w' ! m = Waiter c' t' p'" "m < length (goroutines w)"
  shows "\<exists>p''. goroutines w ! m = Waiter c' t' p''"
  using assms by (cases rule: sync_cases) (auto simp: nth_simps split: if_splits)

lemma sync_frame:
  assumes "sync i j w = Some w'"
  shows "thr w' = thr w" "clock w' = clock w" "length (goroutines w') = length (goroutines w)"
    "m \<noteq> i \<Longrightarrow> m \<noteq> j \<Longrightarrow> goroutines w' ! m = goroutines w ! m"
  using assms by (cases rule: sync_cases; simp)+

lemma run_frame:
  assumes "run i w = Some w'"
  shows "clock w' = clock w" "length (goroutines w) \<le> length (goroutines w')"
    "m \<noteq> i \<Longrightarrow> m < length (goroutines w) \<Longrightarrow> goroutines w' ! m = goroutines w ! m"
  using assms by (cases rule: run_cases; simp add: nth_simps)+

lemma offers_sync_timeout:
  assumes "sync i j w = Some w'" "goroutines w ! j = Waiter c t0 (Select ch tc)"
    "goroutines w ! i = Sender tc" "tc \<noteq> ch"
  shows "offers w' ch = offers w ch"
  using assms
  by (cases rule: sync_cases)
     (auto simp: offers_def count_update nth_simps split: if_splits)

lemma first_call_sync:
  assumes "reachable w" "first_call n c t0 w" "sync i j w = Some w'"
  shows "first_call n c t0 w'"
proof -
  from assms(2) obtain p where n: "n < length (goroutines w)" "goroutines w ! n = Waiter c t0 p"
    and at: "first_at n (client_of c) w p"
    and others: "\<And>m c' t' p'. m < length (goroutines w) \<Longrightarrow> m \<noteq> n \<Longrightarrow>
      goroutines w ! m = Waiter c' t' p' \<Longrightarrow> client_of c' \<noteq> client_of c"
    by (auto simp: first_call_def)
  note fr = sync_frame [OF assms(3)]
  have others': "client_of c' \<noteq> client_of c"
    if "m < length (goroutines w')" "m \<noteq> n" "goroutines w' ! m = Waiter c' t' p'" for m c' t' p'
  proof -
    from that fr(3) have m: "m < length (goroutines w)" by simp
    with sync_same_call [OF assms(3) that(3)] obtain p'' where
      "goroutines w ! m = Waiter c' t' p''" by blast
    with others m that(2) show ?thesis by blast
  qed
  have un: "unshared n (client_of c) w' ch" if "unshared n (client_of c) w ch" for ch
    using assms(3) that by (rule unshared_sync_other)
  have "\<exists>p'. goroutines w' ! n = Waiter c t0 p' \<and> first_at n (client_of c) w' p'"
  proof (cases "j = n")
    case True
    from assms(3) show ?thesis
    proof (cases rule: sync_cases)
      case (Token c' t0' tok tc)
      with True n at show ?thesis by (auto simp: nth_simps)
    next
      case (Timeout c' t0' tok tc)
      with True n have p: "p = Select tok tc" "c' = c" "t0' = t0" by simp_all
      from assms(1) have "keyed w" by (rule keyed_reachable)
      with n p have sl: "slots w (client_of c) = Some tok" by (auto simp: keyed_def)
      from at p have u: "unshared n (client_of c) w tok" and o: "0 < offers w tok" by simp_all
      have "offers w' tok = offers w tok"
        using assms(3) Timeout(4,3,5) by (rule offers_sync_timeout)
      with o un [OF u] sl fr(1) have
        "first_at n (client_of c) w' (Return (clock w) (Some (timeout_error (thr w) c)))"
        by simp
      moreover from Timeout True p
      have "goroutines w' ! n = Waiter c t0 (Return (clock w) (Some (timeout_error (thr w) c)))"
        by (simp add: nth_simps)
      ultimately show ?thesis by blast
    qed
  next
    case False
    have "i \<noteq> n" using assms(3) n(2) by (cases rule: sync_cases) auto
    with False fr(4) n(2) have same: "goroutines w' ! n = Waiter c t0 p" by simp
    have "0 < offers w' ch" if "unshared n (client_of c) w ch" "0 < offers w ch" for ch
      using offers_sync_other [OF assms(3) False that(1)] that(2) by simp
    with at have "first_at n (client_of c) w' p"
      using fr(1) un by (intro first_at_frame [of n _ w p w']) auto
    with same show ?thesis by blast
  qed
  with n(1) fr(3) others' show ?thesis by (auto simp: first_call_def)
qed

lemma run_old_call:
  assumes "run i w = Some w'" "goroutines w' ! m = Waiter c' t' p'" "m < length (goroutines w')"
  shows "m < length (goroutines w) \<and> (\<exists>p''. goroutines w ! m = Waiter c' t' p'')"
  using assms by (cases rule: run_cases) (auto simp: nth_simps split: if_splits)

lemma slots_run_other:
  assumes "run i w = Some w'"
    "\<And>c' t' p'. goroutines w ! i = Waiter c' t' p' \<Longrightarrow> client_of c' \<noteq> k"
  shows "slots w' k = slots w k"
  using assms by (cases rule: run_cases) auto

lemma first_call_run_other:
  assumes "reachable w" "first_call n c t0 w" "run i w = Some w'" "i \<noteq> n"
  shows "first_call n c t0 w'"
proof -
  from assms(2) obtain p where n: "n < length (goroutines w)" "goroutines w ! n = Waiter c t0 p"
    and at: "first_at n (client_of c) w p"
    and others: "\<And>m c' t' p'. m < length (goroutines w) \<Longrightarrow> m \<noteq> n \<Longrightarrow>
      goroutines w ! m = Waiter c' t' p' \<Longrightarrow> client_of c' \<noteq> client_of c"
    by (auto simp: first_call_def)
  from assms(1) have inv: "made w" by (rule made_reachable)
  note fr = run_frame [OF assms(3)]
  from assms(3) have i: "i < length (goroutines w)" by (cases rule: run_cases; simp)
  have other: "\<And>c' t' p'. goroutines w ! i = Waiter c' t' p' \<Longrightarrow> client_of c' \<noteq> client_of c"
    using others [OF i assms(4)] .
  have others': "client_of c' \<noteq> client_of c"
    if "m < length (goroutines w')" "m \<noteq> n" "goroutines w' ! m = Waiter c' t' p'" for m c' t' p'
  proof -
    from run_old_call [OF assms(3) that(3,1)] obtain p'' where
      m: "m < length (goroutines w)" "goroutines w ! m = Waiter c' t' p''" by blast
    show ?thesis by (rule others [OF m(1) that(2) m(2)])
  qed
  from fr(3) [of n] assms(4) n have same: "goroutines w' ! n = Waiter c t0 p" by simp
  have sl: "slots w' (client_of c) = slots w (client_of c)"
    using assms(3) other by (rule slots_run_other)
  have un: "unshared n (client_of c) w' ch"
    if "unshared n (client_of c) w ch" "ch < nchans w" for ch
    by (rule unshared_run_other [OF assms(3,4) n(1) that(2,1) other])
  have of: "0 < offers w' ch" if "0 < offers w ch" for ch
    using offers_run [OF assms(3), of ch] that by simp
  have "first_at n (client_of c) w' p"
  proof (cases "\<exists>ch. token_chan p = Some ch")
    case True
    then obtain ch where ch: "token_chan p = Some ch" by blast
    with n have "refers (goroutines w ! n) ch" by simp
    with inv n(1) have "ch < nchans w" by (rule made_nth)
    with ch at un of sl show ?thesis by (cases p) auto
  next
    case False
    show ?thesis
    proof (cases p)
      case (Return t r)
      show ?thesis
      proof (cases r)
        case None
        with Return at sl show ?thesis by simp
      next
        case (Some e)
        with Return at obtain ch where s: "slots w (client_of c) = Some ch"
          and u: "unshared n (client_of c) w ch" and o: "0 < offers w ch"
          by (auto split: option.splits)
        from inv s have "ch < nchans w" by (rule made_slot)
        with un [OF u] of [OF o] s sl Some Return show ?thesis by simp
      qed
    qed (use False at sl in auto)
  qed
  with same n(1) fr(2) others' show ?thesis by (auto simp: first_call_def)
qed

lemma first_call_run_self:
  assumes "reachable w" "first_call n c t0 w" "run n w = Some w'"
  shows "first_call n c t0 w'"
proof -
  from assms(2) obtain p where n: "n < length (goroutines w)" "goroutines w ! n = Waiter c t0 p"
    and at: "first_at n (client_of c) w p"
    and others: "\<And>m c' t' p'. m < length (goroutines w) \<Longrightarrow> m \<noteq> n \<Longrightarrow>
      goroutines w ! m = Waiter c' t' p' \<Longrightarrow> client_of c' \<noteq> client_of c"
    by (auto simp: first_call_def)
  from assms(1) have inv: "made w" "keyed w"
    by (simp_all add: made_reachable keyed_reachable)
  note fr = run_frame [OF assms(3)]
  have others': "client_of c' \<noteq> client_of c"
    if "m < length (goroutines w')" "m \<noteq> n" "goroutines w' ! m = Waiter c' t' p'" for m c' t' p'
  proof -
    from run_old_call [OF assms(3) that(3,1)] obtain p'' where
      m: "m < length (goroutines w)" "goroutines w ! m = Waiter c' t' p''" by blast
    show ?thesis by (rule others [OF m(1) that(2) m(2)])
  qed
  from inv(2) n have bd: "binding (slots w) (client_of c) p" by (auto simp: keyed_def)
  have fresh: "unshared n (client_of c) w (nchans w)"
  proof -
    have "slots w client \<noteq> Some (nchans w)" for client
      using made_slot [OF inv(1), of client "nchans w"] by auto
    moreover have "\<not> takes (goroutines w ! m) (nchans w) \<and> \<not> awaits (goroutines w ! m) (nchans w)"
      if "m < length (goroutines w)" for m
      using made_nth [OF inv(1) that, of "nchans w"] takes_refers awaits_refers by blast
    ultimately show ?thesis by (simp add: unshared_def)
  qed
  have "\<exists>p'. goroutines w' ! n = Waiter c t0 p' \<and> first_at n (client_of c) w' p'"
    using assms(3)
  proof (cases rule: run_cases)
    case (Lock c' t')
    with n at show ?thesis by auto
  next
    case (Hit c' t' ch)
    with n at show ?thesis by auto
  next
    case (Miss c' t')
    with n at show ?thesis by auto
  next
    case (Make c' t')
    with n fresh show ?thesis by (auto simp: unshared_def)
  next
    case (GoFirst c' t' ch)
    with n at show ?thesis
      by (auto simp: unshared_def offers_def count_update nth_simps)
  next
    case (Store c' t' ch)
    with n at show ?thesis
      by (auto simp: unshared_def offers_def count_update nth_simps)
  next
    case (Unlock c' t' ch)
    with n at show ?thesis
      by (auto simp: unshared_def offers_def count_update nth_simps)
  next
    case (MakeTimeout c' t' ch)
    with n at show ?thesis
      by (auto simp: unshared_def offers_def count_update nth_simps)
  next
    case (GoTimeout c' t' ch tc)
    with n at show ?thesis
      by (auto simp: unshared_def offers_def count_update nth_simps)
  next
    case (GoNext c' t' ch t)
    with n bd show ?thesis by (auto simp: nth_simps)
  next
    case (Wake t ch)
    with n show ?thesis by simp
  qed
  with n(1) fr(2) others' show ?thesis by (auto simp: first_call_def)
qed

lemma first_call_step:
  assumes "reachable w" "first_call n c t0 w" "step a w = Some w'"
    "\<And>c'. a = Call c' \<Longrightarrow> client_of c' \<noteq> client_of c"
  shows "first_call n c t0 w'"
proof (cases a)
  case (Call c')
  with assms(3) have "w' = spawn (Waiter c' (clock w) Lock) w" by simp
  with assms(2) assms(4) [OF Call] show ?thesis by (simp add: first_call_call)
next
  case (Run i)
  with assms(3) have r: "run i w = Some w'" by simp
  show ?thesis
  proof (cases "i = n")
    case True
    with r assms(1,2) show ?thesis by (simp add: first_call_run_self)
  next
    case False
    show ?thesis by (rule first_call_run_other [OF assms(1,2) r False])
  qed
next
  case (Sync i j)
  with assms(3) have "sync i j w = Some w'" by simp
  with assms(1,2) show ?thesis by (rule first_call_sync)
next
  case (Tick m)
  with assms(3) have "tick m w = Some w'" by simp
  with assms(2) show ?thesis by (rule first_call_tick)
qed

lemma first_call_exec:
  assumes "exec as w = Some w'" "reachable w" "first_call n c t0 w"
    "\<forall>a \<in> set as. \<forall>c'. a = Call c' \<longrightarrow> client_of c' \<noteq> client_of c"
  shows "first_call n c t0 w' \<and> reachable w'"
  using assms
proof (induction as arbitrary: w)
  case Nil
  then show ?case by simp
next
  case (Cons a as)
  from Cons.prems(1) obtain w1 where s: "step a w = Some w1" and e: "exec as w1 = Some w'"
    by (auto split: option.splits)
  from Cons.prems(4) have "\<And>c'. a = Call c' \<Longrightarrow> client_of c' \<noteq> client_of c" by simp
  with Cons.prems(2,3) s have "first_call n c t0 w1" by (rule first_call_step)
  moreover from Cons.prems(2) s have "reachable w1" by (rule reachable.step)
  moreover from Cons.prems(4)
  have "\<forall>a \<in> set as. \<forall>c'. a = Call c' \<longrightarrow> client_of c' \<noteq> client_of c" by simp
  ultimately show ?case using e by (intro Cons.IH)
qed

lemma first_call_start:
  assumes "slots w0 (client_of c) = None"
    "\<forall>g \<in> set (goroutines w0). \<forall>c' t p. g = Waiter c' t p \<longrightarrow> client_of c' \<noteq> client_of c"
  shows "first_call (length (goroutines w0)) c t0 (spawn (Waiter c t0 Lock) w0)"
proof -
  have "client_of c' \<noteq> client_of c"
    if "i < length (goroutines w0)" "goroutines w0 ! i = Waiter c' t' p'" for i c' t' p'
  proof -
    from that have "Waiter c' t' p' \<in> set (goroutines w0)" by (metis nth_mem)
    with assms(2) show ?thesis by blast
  qed
  then have "\<forall>i<length (goroutines w0). \<forall>c' t' p'.
      goroutines w0 ! i = Waiter c' t' p' \<longrightarrow> client_of c' \<noteq> client_of c"
    by blast
  with assms(1) show ?thesis
    by (auto simp: first_call_def spawn_def nth_simps)
qed

lemma weight_update:
  "i < length xs \<Longrightarrow>
   sum_list (map f (xs[i := x])) + f (xs ! i) = sum_list (map f xs) + (f x :: nat)"
proof (induction xs arbitrary: i)
  case Nil
  then show ?case by simp
next
  case (Cons a xs)
  then show ?case by (cases i) auto
qed

lemma work_run:
  assumes "run i w = Some w'"
  shows "work w' < work w"
  using assms
proof (cases rule: run_cases)
  case (Lock c t0)
  with weight_update [of i "goroutines w" weight "Waiter c t0 Lookup"] show ?thesis
    by (simp add: work_def)
next
  case (Hit c t0 ch)
  with weight_update [of i "goroutines w" weight "Waiter c t0 (Unlock ch)"] show ?thesis
    by (simp add: work_def)
next
  case (Miss c t0)
  with weight_update [of i "goroutines w" weight "Waiter c t0 Make"] show ?thesis
    by (simp add: work_def)
next
  case (Make c t0)
  with weight_update [of i "goroutines w" weight "Waiter c t0 (GoFirst (nchans w))"]
  show ?thesis by (simp add: work_def)
next
  case (GoFirst c t0 ch)
  with weight_update [of i "goroutines w @ [Sender ch]" weight "Waiter c t0 (Store ch)"]
  show ?thesis by (simp add: work_def nth_append)
next
  case (Store c t0 ch)
  with weight_update [of i "goroutines w" weight "Waiter c t0 (Unlock ch)"] show ?thesis
    by (simp add: work_def)
next
  case (Unlock c t0 ch)
  with weight_update [of i "goroutines w" weight "Waiter c t0 (MakeTimeout ch)"]
  show ?thesis by (simp add: work_def)
next
  case (MakeTimeout c t0 ch)
  with weight_update [of i "goroutines w" weight "Waiter c t0 (GoTimeout ch (nchans w))"]
  show ?thesis by (simp add: work_def)
next
  case (GoTimeout c t0 ch tc)
  with weight_update [of i "goroutines w @ [Sleeper (wake w) tc]" weight
      "Waiter c t0 (Select ch tc)"]
  show ?thesis by (simp add: work_def nth_append)
next
  case (GoNext c t0 ch t)
  with weight_update [of i "goroutines w @ [Sleeper (wake w) ch]" weight
      "Waiter c t0 (Return (clock w) None)"]
  show ?thesis by (simp add: work_def nth_append)
next
  case (Wake t ch)
  with weight_update [of i "goroutines w" weight "Sender ch"] show ?thesis
    by (simp add: work_def)
qed

lemma work_sync:
  assumes "sync i j w = Some w'"
  shows "work w' < work w"
  using assms
proof (cases rule: sync_cases)
  case (Token c t0 tok tc)
  then have ij: "i \<noteq> j" by auto
  from Token weight_update [of i "goroutines w" weight Finished]
    weight_update [of j "(goroutines w)[i := Finished]" weight
      "Waiter c t0 (GoNext tok (clock w))"] ij
  show ?thesis by (simp add: work_def)
next
  case (Timeout c t0 tok tc)
  then have ij: "i \<noteq> j" by auto
  from Timeout weight_update [of i "goroutines w" weight Finished]
    weight_update [of j "(goroutines w)[i := Finished]" weight
      "Waiter c t0 (Return (clock w) (Some (timeout_error (thr w) c)))"] ij
  show ?thesis by (simp add: work_def)
qed









lemma first_call_result:
  assumes "reachable w" "first_call n c t0 w"
  shows "\<exists>p. goroutines w ! n = Waiter c t0 p \<and>
           (\<forall>ch. token_chan p = Some ch \<longrightarrow> 3 < stage p \<longrightarrow> stage p < 9 \<longrightarrow>
              Sender ch \<in> set (goroutines w)) \<and>
           (\<forall>t. p = Return t None \<longrightarrow>
              (\<exists>ch. slots w (client_of c) = Some ch \<and> length (in_flight w ch) = 1)) \<and>
           (\<forall>t e. p = Return t (Some e) \<longrightarrow> t0 + max 0 (rate w) \<le> t \<and>
              (\<exists>ch. slots w (client_of c) = Some ch \<and> Sender ch \<in> set (goroutines w)))"
proof -
  from assms(2) obtain p where n: "n < length (goroutines w)" "goroutines w ! n = Waiter c t0 p"
    and at: "first_at n (client_of c) w p"
    by (auto simp: first_call_def)
  from assms(1) have inv: "timely w" "stocked w"
    by (simp_all add: timed_reachable stocked_reachable)
  from inv(1) n have ot: "on_time (clock w) (rate w) t0 p" by (auto simp: timely_def)
  have sender: "Sender ch \<in> set (goroutines w)" if "0 < offers w ch" for ch
    using offers_ex [OF that] by (auto simp: in_set_conv_nth)
  have a: "\<forall>ch. token_chan p = Some ch \<longrightarrow> 3 < stage p \<longrightarrow> stage p < 9 \<longrightarrow>
      Sender ch \<in> set (goroutines w)"
    using at sender by (cases p) auto
  have b: "\<exists>ch. slots w (client_of c) = Some ch \<and> length (in_flight w ch) = 1"
    if "p = Return t None" for t
  proof -
    from that at obtain ch where "slots w (client_of c) = Some ch" by auto
    with inv(2) show ?thesis by (auto simp: stocked_def in_flight_def)
  qed
  have d: "t0 + max 0 (rate w) \<le> t \<and>
      (\<exists>ch. slots w (client_of c) = Some ch \<and> Sender ch \<in> set (goroutines w))"
    if "p = Return t (Some e)" for t e
    using that at ot sender by (auto split: option.splits)
  from n(2) a b d show ?thesis by blast
qed

lemma run_returned:
  assumes "run i w = Some w'" "n < length (goroutines w)" "goroutines w ! n = Waiter c t0 p"
    "\<not> returned p" "goroutines w' ! n = Waiter c t0 p'" "returned p'"
  shows "p' = Return (clock w) None"
  using assms
  by (cases rule: run_cases) (auto simp: nth_simps split: if_splits)

lemma first_call_served:
  assumes "reachable w" "first_call n c t0 w" "goroutines w ! n = Waiter c t0 p" "\<not> returned p"
  shows "\<exists>bs w'. list_all internal bs \<and> exec bs w = Some w' \<and>
           goroutines w' ! n = Waiter c t0 (Return (clock w) None)"
  using assms
proof (induction "work w" arbitrary: w p rule: less_induct)
  case less
  from less.prems(2) have n: "n < length (goroutines w)" by (simp add: first_call_def)
  from less.prems(2,3) have at: "first_at n (client_of c) w p" by (auto simp: first_call_def)
  have "\<exists>a w1 p1. internal a \<and> step a w = Some w1 \<and> work w1 < work w \<and> clock w1 = clock w \<and>
      goroutines w1 ! n = Waiter c t0 p1 \<and> (returned p1 \<longrightarrow> p1 = Return (clock w) None)"
  proof -
    have by_run: ?thesis if "run k w \<noteq> None" for k
    proof -
      from that obtain w1 where r: "run k w = Some w1" by auto
      from step_stage [of "Run k" w w1 n c t0 p] r n less.prems(3) obtain p1 where
        p1: "goroutines w1 ! n = Waiter c t0 p1" by auto
      from run_returned [OF r n less.prems(3,4) p1]
      have "returned p1 \<longrightarrow> p1 = Return (clock w) None" by blast
      with r p1 work_run [OF r] run_frame(1) [OF r]
      have "internal (Run k) \<and> step (Run k) w = Some w1 \<and> work w1 < work w \<and>
          clock w1 = clock w \<and> goroutines w1 ! n = Waiter c t0 p1 \<and>
          (returned p1 \<longrightarrow> p1 = Return (clock w) None)" by simp
      then show ?thesis by blast
    qed
    show ?thesis
    proof (cases "blocked p")
      case False
      with n less.prems(3) have "run n w \<noteq> None" by (rule run_enabled)
      then show ?thesis by (rule by_run)
    next
      case True
      from blocked_cases [OF this] less.prems(4)
      consider "p = Lock" | (Select) tok tc where "p = Select tok tc" by auto
      then show ?thesis
      proof cases
        case 1
        show ?thesis
        proof (cases "mutex w")
          case True
          from less.prems(1) have "exclusive w" by (rule exclusive_reachable)
          with True have "0 < length (filter holds_lock (goroutines w))"
            by (simp add: exclusive_def)
          then have "\<exists>k<length (goroutines w). holds_lock (goroutines w ! k)"
            by (rule count_ex)
          then obtain k where "k < length (goroutines w)" "holds_lock (goroutines w ! k)"
            by blast
          then have "run k w \<noteq> None" by (rule holder_enabled)
          then show ?thesis by (rule by_run)
        next
          case False
          from less.prems(3) 1 have "goroutines w ! n = Waiter c t0 Lock" by simp
          with n have "run n w \<noteq> None" using False by (rule lock_enabled)
          then show ?thesis by (rule by_run)
        qed
      next
        case Select
        with at have "0 < offers w tok" by simp
        then obtain i where i: "i < length (goroutines w)" "goroutines w ! i = Sender tok"
          using offers_ex by blast
        from less.prems(3) Select have g: "goroutines w ! n = Waiter c t0 (Select tok tc)"
          by simp
        let ?w1 = "w\<lparr>goroutines :=
            (goroutines w)[i := Finished, n := Waiter c t0 (GoNext tok (clock w))]\<rparr>"
        from i n g have s: "sync i n w = Some ?w1" by (simp add: sync_def)
        from n have "goroutines ?w1 ! n = Waiter c t0 (GoNext tok (clock w))" by simp
        with s work_sync [OF s]
        have "internal (Sync i n) \<and> step (Sync i n) w = Some ?w1 \<and> work ?w1 < work w \<and>
            clock ?w1 = clock w \<and> goroutines ?w1 ! n = Waiter c t0 (GoNext tok (clock w)) \<and>
            (returned (GoNext tok (clock w)) \<longrightarrow> GoNext tok (clock w) = Return (clock w) None)"
          by simp
        then show ?thesis by blast
      qed
    qed
  qed
  then obtain a w1 p1 where a: "internal a" "step a w = Some w1" "work w1 < work w"
    "clock w1 = clock w" "goroutines w1 ! n = Waiter c t0 p1"
    "returned p1 \<longrightarrow> p1 = Return (clock w) None"
    by blast
  show ?case
  proof (cases "returned p1")
    case True
    with a have "list_all internal [a] \<and> exec [a] w = Some w1 \<and>
        goroutines w1 ! n = Waiter c t0 (Return (clock w) None)" by simp
    then show ?thesis by blast
  next
    case False
    from less.prems(1) a(2) have r: "reachable w1" by (rule reachable.step)
    from a(1) have "\<And>c'. a = Call c' \<Longrightarrow> client_of c' \<noteq> client_of c" by auto
    with less.prems(1,2) a(2) have f: "first_call n c t0 w1" by (rule first_call_step)
    from less.hyps [OF a(3) r f a(5) False] obtain bs w' where
      "list_all internal bs" "exec bs w1 = Some w'"
      "goroutines w' ! n = Waiter c t0 (Return (clock w1) None)"
      by blast
    with a(1,2,4) have "list_all internal (a # bs) \<and> exec (a # bs) w = Some w' \<and>
        goroutines w' ! n = Waiter c t0 (Return (clock w) None)" by simp
    then show ?thesis by blast
  qed
qed

lemma at_refused_exec:
  "exec (to_select (WaitClient ''a'') @ [Tick 3, Run 2, Sync 2 0]) (boot 3) = Some at_refused"
  by (simp add: eval_defs at_refused_def)



lemma sync_token_only:
  assumes "sync i n w = Some w'" "goroutines w ! n = Waiter c t0 (Select tok tc)"
    "Sender tc \<notin> set (goroutines w)"
  shows "goroutines w' ! n = Waiter c t0 (GoNext tok (clock w))"
  using assms
proof (cases rule: sync_cases)
  case (Token c' t0' tok' tc')
  with assms(2) show ?thesis by simp
next
  case (Timeout c' t0' tok' tc')
  from Timeout(1,3) have "Sender tc' \<in> set (goroutines w)" by (metis nth_mem)
  with Timeout(4) assms(2,3) show ?thesis by simp
qed

lemma producer_alone:
  assumes "one_owner w" "j < length (goroutines w)" "owes (goroutines w ! j) ch" "\<not> owes g ch"
    "owes s ch"
  shows "filter (\<lambda>g. owes g ch) ((goroutines w @ [s])[j := g]) = [s]"
proof -
  have "\<not> owes x ch" if "x \<in> set ((goroutines w)[j := g])" for x
  proof -
    from that obtain k where k: "k < length (goroutines w)" "x = (goroutines w)[j := g] ! k"
      by (auto simp: in_set_conv_nth)
    show ?thesis
    proof (cases "k = j")
      case True
      with k assms(4) show ?thesis by simp
    next
      case False
      with sole_owner [OF assms(1,2) k(1) assms(3)] have "\<not> owes (goroutines w ! k) ch" by blast
      with False k show ?thesis by simp
    qed
  qed
  then have "filter (\<lambda>g. owes g ch) ((goroutines w)[j := g]) = []"
    by (simp add: filter_empty_conv)
  with assms(2,5) show ?thesis by (simp add: list_update_append1)
qed

section \<open>The claims\<close>

text \<open>
  C1. The request variant does not put the rate of the throttle into its error: with a
  rate of one second, a second request of the same client at the same time runs into its
  timeout after one second and returns the error that carries the package variable
  \<^verbatim>\<open>timeout\<close>, five seconds.
\<close>

theorem request_error_carries_timeout:
  "exec (rival (WaitRequest request) @ [Tick Second, Run 5, Sync 5 1]) (boot Second) =
     Some request_rejected \<and>
   requestRate (thr request_rejected) = Second \<and>
   goroutines request_rejected ! 1 =
     Waiter (WaitRequest request) 0 (Return Second (Some (OneRequestPer (5 * Second)))) \<and>
   OneRequestPer (5 * Second) \<noteq> OneRequestPer Second"
  by (simp add: eval_defs rival_def request_rejected_def request_def ip4_takeWhile
      Second_def timeout_def)

text \<open>
  C2, as stated, fails: a single call for a new client on a fresh throttle with a rate of
  3 ns reaches its \<^verbatim>\<open>select\<close> at the time of the call, with the first token on offer;
  3 ns later its timeout goroutine has woken up, the \<^verbatim>\<open>select\<close> takes the timeout, and
  the call returns the error. The first token is still on offer.
\<close>

theorem first_call_refused:
  "tokenChans (thr (boot 3)) ''a'' = None \<and> goroutines (boot 3) = [] \<and>
   exec (to_select (WaitClient ''a'')) (boot 3) = Some at_select \<and>
   goroutines at_select ! 0 = Waiter (WaitClient ''a'') 0 (Select 0 1) \<and>
   clock at_select = 0 \<and> Sender 0 \<in> set (goroutines at_select) \<and>
   exec [Tick 3, Run 2, Sync 2 0] at_select = Some at_refused \<and>
   goroutines at_refused ! 0 = Waiter (WaitClient ''a'') 0 (Return 3 (Some (OneRequestPer 3))) \<and>
   Sender 0 \<in> set (goroutines at_refused)"
  by (simp add: eval_defs at_select_def at_refused_def)

text \<open>
  C2, amended. The first call for a client that the throttle has not seen, while no other
  call for that client is made: the first token is sent without any sleep, so from the
  \<^verbatim>\<open>go\<close> statement to the \<^verbatim>\<open>select\<close> a sender is blocked on the channel of the
  client. As long as the call has not returned, it can be served at once: a run of the
  system returns \<^verbatim>\<open>nil\<close> at the present time; and in its \<^verbatim>\<open>select\<close>, as long as
  its timeout goroutine is not blocked in its send, a receive can only be that of the
  token. That it is served is not guaranteed. When it has returned \<^verbatim>\<open>nil\<close>, the channel
  of the client is in the map and has exactly one token in flight, the next one. When it
  has returned the error, at least one rate has passed since the call, and the first token
  is still on offer on the channel of the client. A call on a fresh throttle is the case
  of the world after \<^verbatim>\<open>New\<close>.
\<close>

theorem first_token_offered:
  assumes "reachable w0" "tokenChans (thr w0) (client_of c) = None"
    "\<forall>g \<in> set (goroutines w0). \<forall>c' t p. g = Waiter c' t p \<longrightarrow> client_of c' \<noteq> client_of c"
    "\<forall>a \<in> set as. \<forall>c'. a = Call c' \<longrightarrow> client_of c' \<noteq> client_of c"
    "exec (Call c # as) w0 = Some w"
  shows "\<exists>p. goroutines w ! length (goroutines w0) = Waiter c (clock w0) p \<and>
           (\<forall>ch. token_chan p = Some ch \<longrightarrow> 3 < stage p \<longrightarrow> stage p < 9 \<longrightarrow>
              Sender ch \<in> set (goroutines w)) \<and>
           (\<not> returned p \<longrightarrow>
              (\<exists>bs w'. list_all internal bs \<and> exec bs w = Some w' \<and>
                 goroutines w' ! length (goroutines w0) =
                   Waiter c (clock w0) (Return (clock w) None))) \<and>
           (\<forall>tok tc i w'. p = Select tok tc \<longrightarrow> Sender tc \<notin> set (goroutines w) \<longrightarrow>
              sync i (length (goroutines w0)) w = Some w' \<longrightarrow>
              goroutines w' ! length (goroutines w0) =
                Waiter c (clock w0) (GoNext tok (clock w))) \<and>
           (\<forall>t. p = Return t None \<longrightarrow>
              (\<exists>ch. tokenChans (thr w) (client_of c) = Some ch \<and>
                 length (in_flight w ch) = 1)) \<and>
           (\<forall>t e. p = Return t (Some e) \<longrightarrow>
              clock w0 + max 0 (requestRate (thr w)) \<le> t \<and>
              (\<exists>ch. tokenChans (thr w) (client_of c) = Some ch \<and>
                 Sender ch \<in> set (goroutines w)))"
proof -
  let ?w1 = "spawn (Waiter c (clock w0) Lock) w0"
  let ?n = "length (goroutines w0)"
  from assms(5) have e: "exec as ?w1 = Some w" by simp
  have s: "step (Call c) w0 = Some ?w1" by simp
  with assms(1) have r: "reachable ?w1" by (rule reachable.step)
  from assms(2,3) have "first_call ?n c (clock w0) ?w1"
    by (rule first_call_start)
  with e r have f: "first_call ?n c (clock w0) w" and rw: "reachable w"
    using assms(4) by (auto dest: first_call_exec)
  from first_call_result [OF rw f] obtain p where
    p: "goroutines w ! ?n = Waiter c (clock w0) p"
      "\<forall>ch. token_chan p = Some ch \<longrightarrow> 3 < stage p \<longrightarrow> stage p < 9 \<longrightarrow>
         Sender ch \<in> set (goroutines w)"
      "\<forall>t. p = Return t None \<longrightarrow>
         (\<exists>ch. slots w (client_of c) = Some ch \<and> length (in_flight w ch) = 1)"
      "\<forall>t e. p = Return t (Some e) \<longrightarrow> clock w0 + max 0 (rate w) \<le> t \<and>
         (\<exists>ch. slots w (client_of c) = Some ch \<and> Sender ch \<in> set (goroutines w))"
    by blast
  have "\<not> returned p \<longrightarrow>
      (\<exists>bs w'. list_all internal bs \<and> exec bs w = Some w' \<and>
         goroutines w' ! ?n = Waiter c (clock w0) (Return (clock w) None))"
    using first_call_served [OF rw f p(1)] by blast
  moreover have "\<forall>tok tc i w'. p = Select tok tc \<longrightarrow> Sender tc \<notin> set (goroutines w) \<longrightarrow>
      sync i ?n w = Some w' \<longrightarrow>
      goroutines w' ! ?n = Waiter c (clock w0) (GoNext tok (clock w))"
    using p(1) sync_token_only by blast
  ultimately show ?thesis using p by blast
qed

theorem first_token_offered_witness:
  "Sender 0 \<in> set (goroutines at_select) \<and>
   (\<exists>bs w'. list_all internal bs \<and> exec bs at_select = Some w' \<and>
      goroutines w' ! 0 = Waiter (WaitClient ''a'') 0 (Return 0 None)) \<and>
   goroutines at_go_next ! 0 = Waiter (WaitClient ''a'') 0 (GoNext 0 0) \<and>
   (\<exists>ch. tokenChans (thr at_return) ''a'' = Some ch \<and> length (in_flight at_return ch) = 1) \<and>
   (0::int) + max 0 (requestRate (thr at_refused)) \<le> 3 \<and>
   (\<exists>ch. tokenChans (thr at_refused) ''a'' = Some ch \<and> Sender ch \<in> set (goroutines at_refused))"
proof -
  let ?c = "WaitClient ''a''"
  have h: "reachable (boot 3)" "tokenChans (thr (boot 3)) (client_of ?c) = None"
    "\<forall>g \<in> set (goroutines (boot 3)). \<forall>c' t p. g = Waiter c' t p \<longrightarrow>
       client_of c' \<noteq> client_of ?c"
    by (rule reachable.boot) (simp_all add: boot_def New_def)
  have n: "length (goroutines (boot 3)) = 0" "clock (boot 3) = 0" "client_of ?c = ''a''"
    by (simp_all add: boot_def client_of_def)
  have a: "\<forall>a \<in> set (tl (to_select ?c)). \<forall>c'. a = Call c' \<longrightarrow> client_of c' \<noteq> client_of ?c"
    "\<forall>a \<in> set (tl (to_select ?c) @ [Sync 1 0, Run 0]).
       \<forall>c'. a = Call c' \<longrightarrow> client_of c' \<noteq> client_of ?c"
    "\<forall>a \<in> set (tl (to_select ?c) @ [Tick 3, Run 2, Sync 2 0]).
       \<forall>c'. a = Call c' \<longrightarrow> client_of c' \<noteq> client_of ?c"
    by (simp_all add: to_select_def)
  have e: "exec (Call ?c # tl (to_select ?c)) (boot 3) = Some at_select"
    "exec (Call ?c # tl (to_select ?c) @ [Sync 1 0, Run 0]) (boot 3) = Some at_return"
    "exec (Call ?c # tl (to_select ?c) @ [Tick 3, Run 2, Sync 2 0]) (boot 3) = Some at_refused"
    using at_select_exec at_refused_exec
    by (simp_all add: to_select_def eval_defs at_select_def at_return_def)
  have g: "goroutines at_select ! 0 = Waiter ?c 0 (Select 0 1)"
    "goroutines at_return ! 0 = Waiter ?c 0 (Return 0 None)"
    "goroutines at_refused ! 0 = Waiter ?c 0 (Return 3 (Some (OneRequestPer 3)))"
    "Sender 1 \<notin> set (goroutines at_select)" "clock at_select = 0"
    "sync 1 0 at_select = Some at_go_next"
    using at_go_next_step by (simp_all add: at_select_def at_return_def at_refused_def)
  from first_token_offered [OF h a(1) e(1)] n g
  have "Sender 0 \<in> set (goroutines at_select) \<and>
      (\<exists>bs w'. list_all internal bs \<and> exec bs at_select = Some w' \<and>
         goroutines w' ! 0 = Waiter ?c 0 (Return 0 None)) \<and>
      goroutines at_go_next ! 0 = Waiter ?c 0 (GoNext 0 0)"
    by auto
  moreover from first_token_offered [OF h a(2) e(2)] n g
  have "\<exists>ch. tokenChans (thr at_return) ''a'' = Some ch \<and> length (in_flight at_return ch) = 1"
    by auto
  moreover from first_token_offered [OF h a(3) e(3)] n g
  have "(0::int) + max 0 (requestRate (thr at_refused)) \<le> 3 \<and>
      (\<exists>ch. tokenChans (thr at_refused) ''a'' = Some ch \<and>
         Sender ch \<in> set (goroutines at_refused))"
    by auto
  ultimately show ?thesis by blast
qed

text \<open>
  The condition on the other calls is needed as well. Of two calls for a new client at
  the same time, the second can receive the first token before the first, which made the
  channel, reaches its \<^verbatim>\<open>select\<close>; the first call then finds no token and runs into
  its timeout.
\<close>

lemma rival_takes_first_token:
  "exec (steal (WaitClient ''a'')) (boot 3) = Some at_stolen \<and>
   goroutines at_stolen ! 0 = Waiter (WaitClient ''a'') 0 (Return 3 (Some (OneRequestPer 3))) \<and>
   goroutines at_stolen ! 1 = Waiter (WaitClient ''a'') 0 (Return 0 None)"
  by (simp add: eval_defs steal_def at_stolen_def)




text \<open>
  C4. For the channel of a client, at most one token is in flight: waiting for a receiver,
  being produced, or about to be produced. When a call is about to start the production of
  the next token (it has just received one), no other token of the channel exists or is
  being produced.
\<close>

theorem one_token_in_flight:
  assumes "reachable w" "tokenChans (thr w) client = Some ch"
  shows "length (in_flight w ch) \<le> 1 \<and>
         (\<forall>j<length (goroutines w). \<forall>c t0 t. goroutines w ! j = Waiter c t0 (GoNext ch t) \<longrightarrow>
            (\<forall>g \<in> set (goroutines w). g \<noteq> Sender ch \<and> (\<forall>t'. g \<noteq> Sleeper t' ch)))"
proof -
  from assms(1) have o: "one_owner w" by (rule one_owner_reachable)
  then have "length (in_flight w ch) \<le> 1" by (simp add: one_owner_def in_flight_def)
  moreover have "g \<noteq> Sender ch \<and> (\<forall>t'. g \<noteq> Sleeper t' ch)"
    if j: "j < length (goroutines w)" "goroutines w ! j = Waiter c t0 (GoNext ch t)"
      and g: "g \<in> set (goroutines w)" for j c t0 t g
  proof -
    from g obtain k where k: "k < length (goroutines w)" "g = goroutines w ! k"
      by (auto simp: in_set_conv_nth)
    from j have oj: "owes (goroutines w ! j) ch" by simp
    have "k = j" if "owes g ch"
    proof -
      from that k have "owes (goroutines w ! k) ch" by simp
      with o j(1) k(1) oj show ?thesis by (rule sole_owner)
    qed
    with k j show ?thesis by auto
  qed
  ultimately show ?thesis by blast
qed

theorem one_token_in_flight_witness:
  "tokenChans (thr at_select) ''a'' = Some 0 \<and> length (in_flight at_select 0) \<le> 1 \<and>
   Sender 0 \<notin> set (goroutines at_go_next) \<and> Sleeper 3 0 \<notin> set (goroutines at_go_next)"
proof -
  have s: "tokenChans (thr at_select) ''a'' = Some 0" "tokenChans (thr at_go_next) ''a'' = Some 0"
    by (simp_all add: at_select_def at_go_next_def)
  have g: "0 < length (goroutines at_go_next)"
    "goroutines at_go_next ! 0 = Waiter (WaitClient ''a'') 0 (GoNext 0 0)"
    by (simp_all add: at_go_next_def)
  from one_token_in_flight [OF at_select_reachable s(1)]
  have "length (in_flight at_select 0) \<le> 1" by blast
  moreover from one_token_in_flight [OF at_go_next_reachable s(2)] g
  have "\<forall>g \<in> set (goroutines at_go_next). g \<noteq> Sender 0 \<and> (\<forall>t'. g \<noteq> Sleeper t' 0)"
    by blast
  ultimately show ?thesis using s(1) by blast
qed

text \<open>
  C5, as stated, fails: a call receives its token at time 0 and executes the \<^verbatim>\<open>go\<close>
  statement 1 ns later; with a rate of 3 ns the producer of the next token then sleeps
  until 4 ns, and cannot send at 3 ns, one rate after the receipt.
\<close>

theorem next_token_late:
  "exec (to_select (WaitClient ''a'') @ [Sync 1 0]) (boot 3) = Some at_go_next \<and>
   goroutines at_go_next ! 0 = Waiter (WaitClient ''a'') 0 (GoNext 0 0) \<and>
   exec [Tick 1, Run 0] at_go_next = Some at_delayed \<and>
   requestRate (thr at_delayed) = 3 \<and>
   in_flight at_delayed 0 = [Sleeper 4 0] \<and>
   run 3 (at_delayed\<lparr>clock := 0 + 3\<rparr>) = None"
  by (simp add: eval_defs at_go_next_def at_delayed_def in_flight_def)

text \<open>
  C5, amended. A call returns \<^verbatim>\<open>nil\<close> only by the \<^verbatim>\<open>go\<close> statement of the token
  branch: that step starts the goroutine that sleeps for one rate, counted from that step,
  which is at or after the receipt of the token, and then sends the next token on the
  channel of the same client; after the step this sleeper is the only token in flight on
  the channel. A call is in the token branch only by receiving a token from a sender on the
  channel of its client, and records the time of the receipt. A sleeper cannot wake up
  before its time, and sends when it has woken up, at that time or later. So the next
  token is offered one rate after the receipt of the previous one at the earliest,
  whenever the call itself was made.
\<close>

theorem next_token_after_rate:
  assumes "reachable w"
  shows "(step a w = Some w' \<longrightarrow> j < length (goroutines w) \<longrightarrow>
            goroutines w' ! j = Waiter c t0 (Return t None) \<longrightarrow>
            goroutines w ! j \<noteq> Waiter c t0 (Return t None) \<longrightarrow>
            (\<exists>ch tr. a = Run j \<and> goroutines w ! j = Waiter c t0 (GoNext ch tr) \<and>
               tokenChans (thr w) (client_of c) = Some ch \<and> tr \<le> clock w \<and> t = clock w \<and>
               goroutines w' =
                 (goroutines w @ [Sleeper (clock w + max 0 (requestRate (thr w))) ch])
                   [j := Waiter c t0 (Return t None)] \<and>
               in_flight w' ch = [Sleeper (clock w + max 0 (requestRate (thr w))) ch])) \<and>
         (step a w = Some w' \<longrightarrow> j < length (goroutines w) \<longrightarrow>
            goroutines w' ! j = Waiter c t0 (GoNext ch tr) \<longrightarrow>
            goroutines w ! j \<noteq> Waiter c t0 (GoNext ch tr) \<longrightarrow>
            (\<exists>i tc. a = Sync i j \<and> goroutines w ! i = Sender ch \<and>
               goroutines w ! j = Waiter c t0 (Select ch tc) \<and> tr = clock w)) \<and>
         (k < length (goroutines w) \<longrightarrow> goroutines w ! k = Sleeper t ch \<longrightarrow>
            (clock w < t \<longrightarrow> run k w = None) \<and>
            (t \<le> clock w \<longrightarrow>
               run k w = Some (w\<lparr>goroutines := (goroutines w)[k := Sender ch]\<rparr>)))"
proof (intro conjI impI)
  assume s: "step a w = Some w'" and j: "j < length (goroutines w)"
    and g': "goroutines w' ! j = Waiter c t0 (Return t None)"
    and g: "goroutines w ! j \<noteq> Waiter c t0 (Return t None)"
  from assms have inv: "timely w" "keyed w" "one_owner w"
    by (simp_all add: timed_reachable keyed_reachable one_owner_reachable)
  show "\<exists>ch tr. a = Run j \<and> goroutines w ! j = Waiter c t0 (GoNext ch tr) \<and>
      tokenChans (thr w) (client_of c) = Some ch \<and> tr \<le> clock w \<and> t = clock w \<and>
      goroutines w' =
        (goroutines w @ [Sleeper (clock w + max 0 (requestRate (thr w))) ch])
          [j := Waiter c t0 (Return t None)] \<and>
      in_flight w' ch = [Sleeper (clock w + max 0 (requestRate (thr w))) ch]"
  proof (cases a)
    case (Call c')
    with s j g g' show ?thesis by (auto simp: spawn_def nth_append)
  next
    case (Tick n)
    with s have "tick n w = Some w'" by simp
    then show ?thesis using g g' by (cases rule: tick_cases) auto
  next
    case (Sync i j')
    with s have "sync i j' w = Some w'" by simp
    then show ?thesis using j g g'
      by (cases rule: sync_cases) (auto simp: nth_simps split: if_splits)
  next
    case (Run k)
    with s have "run k w = Some w'" by simp
    then show ?thesis
    proof (cases rule: run_cases)
      case (GoNext c' t' ch tr)
      with j g g' have eq: "k = j" "c' = c" "t' = t0" "t = clock w"
        by (auto simp: nth_simps split: if_splits)
      from inv(1,2) j GoNext(2) eq have "tr \<le> clock w" "slots w (client_of c) = Some ch"
        by (auto simp: timely_def keyed_def)
      moreover from GoNext eq have gs: "goroutines w' =
          (goroutines w @ [Sleeper (clock w + max 0 (rate w)) ch])
            [j := Waiter c t0 (Return t None)]"
        by (simp add: wake_def)
      moreover have "filter (\<lambda>g. owes g ch)
          ((goroutines w @ [Sleeper (clock w + max 0 (rate w)) ch])
            [j := Waiter c t0 (Return t None)]) = [Sleeper (clock w + max 0 (rate w)) ch]"
        using inv(3) j GoNext(2) eq by (intro producer_alone) auto
      ultimately show ?thesis using Run GoNext(2) eq by (simp add: in_flight_def)
    qed (use j g g' in \<open>auto simp: nth_simps split: if_splits\<close>)
  qed
next
  assume s: "step a w = Some w'" and j: "j < length (goroutines w)"
    and g': "goroutines w' ! j = Waiter c t0 (GoNext ch tr)"
    and g: "goroutines w ! j \<noteq> Waiter c t0 (GoNext ch tr)"
  show "\<exists>i tc. a = Sync i j \<and> goroutines w ! i = Sender ch \<and>
      goroutines w ! j = Waiter c t0 (Select ch tc) \<and> tr = clock w"
  proof (cases a)
    case (Call c')
    with s j g g' show ?thesis by (auto simp: spawn_def nth_append)
  next
    case (Tick n)
    with s have "tick n w = Some w'" by simp
    then show ?thesis using g g' by (cases rule: tick_cases) auto
  next
    case (Run k)
    with s have "run k w = Some w'" by simp
    then show ?thesis using j g g'
      by (cases rule: run_cases) (auto simp: nth_simps split: if_splits)
  next
    case (Sync i j')
    with s have "sync i j' w = Some w'" by simp
    then show ?thesis using j g g' Sync
      by (cases rule: sync_cases) (auto simp: nth_simps split: if_splits)
  qed
next
  assume "k < length (goroutines w)" "goroutines w ! k = Sleeper t ch" "clock w < t"
  then show "run k w = None" by (simp add: run_def)
next
  assume "k < length (goroutines w)" "goroutines w ! k = Sleeper t ch" "t \<le> clock w"
  then show "run k w = Some (w\<lparr>goroutines := (goroutines w)[k := Sender ch]\<rparr>)"
    by (simp add: run_def)
qed

theorem next_token_after_rate_witness:
  "goroutines at_return =
     (goroutines at_go_next @ [Sleeper (clock at_go_next + max 0 (requestRate (thr at_go_next))) 0])
       [0 := Waiter (WaitClient ''a'') 0 (Return 0 None)] \<and>
   in_flight at_return 0 = [Sleeper 3 0] \<and>
   goroutines at_select ! 1 = Sender 0 \<and>
   run 3 at_return = None \<and>
   run 2 at_due = Some (at_due\<lparr>goroutines := (goroutines at_due)[2 := Sender 1]\<rparr>)"
proof -
  have g: "0 < length (goroutines at_go_next)" "0 < length (goroutines at_select)"
    "goroutines at_return ! 0 = Waiter (WaitClient ''a'') 0 (Return 0 None)"
    "goroutines at_go_next ! 0 \<noteq> Waiter (WaitClient ''a'') 0 (Return 0 None)"
    "goroutines at_go_next ! 0 = Waiter (WaitClient ''a'') 0 (GoNext 0 0)"
    "goroutines at_select ! 0 \<noteq> Waiter (WaitClient ''a'') 0 (GoNext 0 0)"
    "clock at_go_next = 0" "requestRate (thr at_go_next) = 3"
    "3 < length (goroutines at_return)" "goroutines at_return ! 3 = Sleeper 3 0"
    "clock at_return < 3"
    "2 < length (goroutines at_due)" "goroutines at_due ! 2 = Sleeper 3 1" "3 \<le> clock at_due"
    by (simp_all add: at_select_def at_go_next_def at_return_def at_due_def)
  from next_token_after_rate [OF at_go_next_reachable,
      where a = "Run 0" and w' = at_return and j = 0 and c = "WaitClient ''a''"
        and ?t0.0 = 0 and t = 0]
    at_return_step g
  have "goroutines at_return =
      (goroutines at_go_next @ [Sleeper (clock at_go_next + max 0 (requestRate (thr at_go_next))) 0])
        [0 := Waiter (WaitClient ''a'') 0 (Return 0 None)] \<and>
      in_flight at_return 0 = [Sleeper 3 0]"
    by auto
  moreover from next_token_after_rate [OF at_select_reachable,
      where a = "Sync 1 0" and w' = at_go_next and j = 0 and c = "WaitClient ''a''"
        and ?t0.0 = 0 and ch = 0 and tr = 0]
    at_go_next_step g
  have "goroutines at_select ! 1 = Sender 0" by auto
  moreover from next_token_after_rate [OF at_return_reachable,
      where k = 3 and t = 3 and ch = 0] g
  have "run 3 at_return = None" by simp
  moreover from next_token_after_rate [OF at_due_reachable,
      where k = 2 and t = 3 and ch = 1] g
  have "run 2 at_due = Some (at_due\<lparr>goroutines := (goroutines at_due)[2 := Sender 1]\<rparr>)"
    by simp
  ultimately show ?thesis by blast
qed

text \<open>
  C6. The channel of a client is created once, under the mutex: the mutex is locked exactly
  when one call is between \<^verbatim>\<open>Lock\<close> and \<^verbatim>\<open>Unlock\<close>; a binding of the map is never
  replaced; two calls for the same client never hold two different token channels; and no
  channel ever has two tokens in flight, the first token included.
\<close>

theorem slot_created_once:
  assumes "reachable w"
  shows "length (filter holds_lock (goroutines w)) = (if tokenChansMutex (thr w) then 1 else 0) \<and>
         (\<forall>a w' client ch. step a w = Some w' \<longrightarrow> tokenChans (thr w) client = Some ch \<longrightarrow>
            tokenChans (thr w') client = Some ch) \<and>
         (\<forall>i<length (goroutines w). \<forall>j<length (goroutines w). \<forall>c t0 p c' t0' p' ch ch'.
            goroutines w ! i = Waiter c t0 p \<longrightarrow> goroutines w ! j = Waiter c' t0' p' \<longrightarrow>
            client_of c = client_of c' \<longrightarrow> token_chan p = Some ch \<longrightarrow> token_chan p' = Some ch' \<longrightarrow>
            ch = ch') \<and>
         (\<forall>ch. length (in_flight w ch) \<le> 1)"
proof -
  from assms have "exclusive w" "one_owner w"
    by (rule exclusive_reachable one_owner_reachable)+
  then have "length (filter holds_lock (goroutines w)) = (if tokenChansMutex (thr w) then 1 else 0)"
    "\<forall>ch. length (in_flight w ch) \<le> 1"
    by (simp_all add: exclusive_def one_owner_def in_flight_def)
  moreover have "\<forall>a w' client ch. step a w = Some w' \<longrightarrow> tokenChans (thr w) client = Some ch \<longrightarrow>
            tokenChans (thr w') client = Some ch"
    using step_slots [OF assms] by blast
  moreover have "\<forall>i<length (goroutines w). \<forall>j<length (goroutines w). \<forall>c t0 p c' t0' p' ch ch'.
            goroutines w ! i = Waiter c t0 p \<longrightarrow> goroutines w ! j = Waiter c' t0' p' \<longrightarrow>
            client_of c = client_of c' \<longrightarrow> token_chan p = Some ch \<longrightarrow> token_chan p' = Some ch' \<longrightarrow>
            ch = ch'"
    using same_slot [OF assms] by blast
  ultimately show ?thesis by blast
qed

theorem slot_created_once_witness:
  "length (filter holds_lock (goroutines at_select)) = 0 \<and>
   tokenChans (thr at_select) ''a'' = Some 0 \<and>
   tokenChans (thr at_go_next) ''a'' = Some 0 \<and>
   length (in_flight at_select 0) \<le> 1 \<and>
   the (token_chan (Select 0 1)) = the (token_chan (Select 0 2))"
proof -
  have "tokenChans (thr at_select) ''a'' = Some 0" "\<not> tokenChansMutex (thr at_select)"
    by (simp_all add: at_select_def)
  with slot_created_once [OF at_select_reachable] at_go_next_step
  have "length (filter holds_lock (goroutines at_select)) = 0 \<and>
      tokenChans (thr at_select) ''a'' = Some 0 \<and>
      tokenChans (thr at_go_next) ''a'' = Some 0 \<and>
      length (in_flight at_select 0) \<le> 1"
    by (simp del: step.simps)
  moreover have "0 < length (goroutines at_both)" "1 < length (goroutines at_both)"
    "goroutines at_both ! 0 = Waiter (WaitClient ''a'') 0 (Select 0 1)"
    "goroutines at_both ! 1 = Waiter (WaitClient ''a'') 0 (Select 0 2)"
    "token_chan (Select 0 1) = Some (the (token_chan (Select 0 1)))"
    "token_chan (Select 0 2) = Some (the (token_chan (Select 0 2)))"
    by (simp_all add: at_both_def)
  with slot_created_once [OF at_both_reachable]
  have "the (token_chan (Select 0 1)) = the (token_chan (Select 0 2))" by blast
  ultimately show ?thesis by blast
qed

text \<open>
  C7. A call returns an error only by the timeout branch of its \<^verbatim>\<open>select\<close>: the step
  that makes it return the error receives from its timeout channel, which is not the
  channel of the client, and leaves the throttle and the tokens in flight of every client
  as they were.
\<close>

theorem timeout_takes_no_token:
  assumes "reachable w" "step a w = Some w'" "j < length (goroutines w)"
    "goroutines w' ! j = Waiter c t0 (Return t (Some e))"
    "goroutines w ! j \<noteq> Waiter c t0 (Return t (Some e))"
  shows "\<exists>i tok tc. a = Sync i j \<and> goroutines w ! i = Sender tc \<and>
           goroutines w ! j = Waiter c t0 (Select tok tc) \<and> tc \<noteq> tok \<and>
           tokenChans (thr w) (client_of c) = Some tok \<and> thr w' = thr w \<and>
           (\<forall>client ch. tokenChans (thr w) client = Some ch \<longrightarrow>
              in_flight w' ch = in_flight w ch)"
proof (cases a)
  case (Call c')
  with assms show ?thesis by (auto simp: spawn_def nth_append)
next
  case (Run k)
  with assms(2) have "run k w = Some w'" by simp
  from run_no_error [OF this assms(3,4)] assms(5) show ?thesis by simp
next
  case (Tick n)
  with assms(2) have "tick n w = Some w'" by simp
  then show ?thesis using assms(4,5) by (cases rule: tick_cases) auto
next
  case (Sync i j')
  with assms(2) have "sync i j' w = Some w'" by simp
  then show ?thesis
  proof (cases rule: sync_cases)
    case (Token c' t0' tok tc)
    with assms(3,4,5) show ?thesis by (auto simp: nth_simps split: if_splits)
  next
    case (Timeout c' t0' tok tc)
    with assms(3,4,5) have eq: "j' = j" "c' = c" "t0' = t0"
      by (auto simp: nth_simps split: if_splits)
    from assms(1) have "keyed w" "separate w"
      by (rule keyed_reachable separate_reachable)+
    with Timeout(2,4) have tok: "slots w (client_of c') = Some tok"
      and tc: "\<And>client. slots w client \<noteq> Some tc"
      by (auto simp: keyed_def separate_def)
    have "in_flight w' ch = in_flight w ch" if "slots w client = Some ch" for client ch
    proof -
      from that tc have ne: "ch \<noteq> tc" by auto
      have "goroutines w' = (goroutines w)[i := Finished,
          j' := Waiter c' t0' (Return (clock w) (Some (timeout_error (thr w) c')))]"
        using Timeout by simp
      moreover have "filter (\<lambda>g. owes g ch) ((goroutines w)[i := Finished]) =
          filter (\<lambda>g. owes g ch) (goroutines w)"
        using Timeout ne by (intro filter_update_other) auto
      moreover have "filter (\<lambda>g. owes g ch) ((goroutines w)[i := Finished,
            j' := Waiter c' t0' (Return (clock w) (Some (timeout_error (thr w) c')))]) =
          filter (\<lambda>g. owes g ch) ((goroutines w)[i := Finished])"
        using Timeout by (intro filter_update_other) (auto simp: nth_list_update)
      ultimately show ?thesis by (simp add: in_flight_def)
    qed
    with Timeout Sync eq tok show ?thesis by auto
  qed
qed

theorem timeout_takes_no_token_witness:
  "tokenChans (thr at_rival) (client_of (WaitClient ''a'')) = Some 0 \<and>
   thr at_reject = thr at_rival \<and> in_flight at_reject 0 = in_flight at_rival 0"
proof -
  have "1 < length (goroutines at_rival)"
    "goroutines at_reject ! 1 = Waiter (WaitClient ''a'') 0 (Return 3 (Some (OneRequestPer 3)))"
    "goroutines at_rival ! 1 \<noteq> Waiter (WaitClient ''a'') 0 (Return 3 (Some (OneRequestPer 3)))"
    by (simp_all add: at_rival_def at_reject_def)
  from timeout_takes_no_token [OF at_rival_reachable at_reject_step this]
  obtain tok where "goroutines at_rival ! 1 = Waiter (WaitClient ''a'') 0 (Select tok 2) \<or> True"
    and tok: "tokenChans (thr at_rival) (client_of (WaitClient ''a'')) = Some tok"
    and same: "thr at_reject = thr at_rival"
      "\<forall>client ch. tokenChans (thr at_rival) client = Some ch \<longrightarrow>
         in_flight at_reject ch = in_flight at_rival ch"
    by auto
  from tok have "tok = 0" by (simp add: at_rival_def client_of_def)
  with tok same show ?thesis by auto
qed

text \<open>
  C8, as stated, fails: after one call that was served, its timeout goroutine is blocked
  in the send on the timeout channel, and stays so in every continuation.
\<close>

theorem timeout_sender_stuck:
  "exec (admitted (WaitClient ''a'') @ [Tick 3, Run 2]) (boot 3) = Some at_stuck \<and>
   goroutines at_stuck ! 0 = Waiter (WaitClient ''a'') 0 (Return 0 None) \<and>
   goroutines at_stuck ! 2 = Sender 1 \<and>
   leaks_forever at_stuck 2 1"
proof -
  have "leaked at_stuck 2 1"
    by (simp add: leaked_def abandoned_def at_stuck_def)
  then have "leaks_forever at_stuck 2 1" by (rule leaked_forever)
  moreover have "exec (admitted (WaitClient ''a'') @ [Tick 3, Run 2]) (boot 3) = Some at_stuck"
    by (simp add: eval_defs at_stuck_def)
  ultimately show ?thesis by (simp add: at_stuck_def)
qed

text \<open>
  C8, amended. When the token branch of a \<^verbatim>\<open>select\<close> wins, the goroutine that sends
  on the timeout channel of that call has leaked: from then on nothing receives from the
  channel, and the goroutine sleeps or is blocked in its send in every continuation.
\<close>

theorem timeout_goroutine_leaks:
  assumes "reachable w" "sync i j w = Some w'" "goroutines w ! i = Sender tok"
    "goroutines w ! j = Waiter c t0 (Select tok tc)"
  shows "\<exists>k. leaks_forever w' k tc"
proof -
  from assms(2) have i: "i < length (goroutines w)" and j: "j < length (goroutines w)"
    by (cases rule: sync_cases; simp)+
  from assms(1) have inv: "separate w" "made w" "armed w"
    by (simp_all add: separate_reachable made_reachable timed_reachable)
  from assms(4) have aw: "awaits (goroutines w ! j) tc" and tk: "takes (goroutines w ! j) tok"
    by simp_all
  from not_taken [OF inv(1) j j aw] tk have ne: "tok \<noteq> tc" by auto
  from assms(2-4) ne have w': "w' = w\<lparr>goroutines :=
      (goroutines w)[i := Finished, j := Waiter c t0 (GoNext tok (clock w))]\<rparr>"
    by (cases rule: sync_cases) auto
  from inv(3) j assms(4) have "length (filter (\<lambda>g. owes g tc) (goroutines w)) = 1"
    by (auto simp: armed_def)
  then have "0 < length (filter (\<lambda>g. owes g tc) (goroutines w))" by simp
  then have "\<exists>k<length (goroutines w). owes (goroutines w ! k) tc" by (rule count_ex)
  then obtain k where k: "k < length (goroutines w)" "owes (goroutines w ! k) tc" by blast
  have nt: "\<not> takes (goroutines w ! m) tc" if "m < length (goroutines w)" for m
    using not_taken [OF inv(1) j that aw] .
  have na: "\<not> awaits (goroutines w ! m) tc" if "m < length (goroutines w)" "m \<noteq> j" for m
    using sole_awaiter [OF inv(1) j that(1) aw] that(2) by blast
  have s: "sends_on (goroutines w ! k) tc"
  proof (cases "goroutines w ! k")
    case (Waiter c' t' p')
    with k(2) have "takes (goroutines w ! k) tc \<or> awaits (goroutines w ! k) tc"
      by (cases p') auto
    with nt [OF k(1)] na [OF k(1)] have "k = j" by blast
    with k(2) assms(4) show ?thesis by simp
  qed (use k(2) in auto)
  with assms(3,4) ne have kij: "k \<noteq> i" "k \<noteq> j" by auto
  have "tc < nchans w" using made_nth [OF inv(2) j, of tc] assms(4) by simp
  moreover have "\<And>client. slots w client \<noteq> Some tc"
    using inv(1) j aw by (auto simp: separate_def)
  ultimately have "leaked w' k tc"
    using w' k(1) s kij i j nt na ne
    by (auto simp: leaked_def abandoned_nth nth_simps)
  then show ?thesis by (blast intro: leaked_forever)
qed

theorem timeout_goroutine_leaks_witness: "\<exists>k. leaked at_stuck k 1"
proof -
  have "sync 1 0 at_select = Some at_go_next" using at_go_next_step by simp
  moreover have "goroutines at_select ! 1 = Sender 0"
    "goroutines at_select ! 0 = Waiter (WaitClient ''a'') 0 (Select 0 1)"
    by (simp_all add: at_select_def)
  ultimately have "\<exists>k. leaks_forever at_go_next k 1"
    by (rule timeout_goroutine_leaks [OF at_select_reachable])
  with at_stuck_exec show ?thesis unfolding leaks_forever_def by blast
qed

text \<open>
  C9. \<^verbatim>\<open>New\<close> gives a throttle with the rate as given, an empty map and an unlocked
  mutex, and starts nothing: the world after it has no goroutine, and in every world that
  has a goroutine the first one is a call of \<^verbatim>\<open>Wait\<close>.
\<close>

theorem New_starts_nothing:
  "requestRate (New d) = d \<and> tokenChans (New d) = Map.empty \<and> \<not> tokenChansMutex (New d) \<and>
   thr (boot d) = New d \<and> goroutines (boot d) = [] \<and>
   (reachable w \<longrightarrow> goroutines w \<noteq> [] \<longrightarrow> is_call (goroutines w ! 0))"
  using called_reachable [of w] by (simp add: New_def boot_def called_def)

theorem New_starts_nothing_witness:
  "goroutines at_return \<noteq> [] \<and> is_call (goroutines at_return ! 0)"
  using New_starts_nothing [of 3 at_return] at_return_reachable
  by (simp add: at_return_def)

text \<open>
  C10. \<^verbatim>\<open>ip4\<close> returns the remote address unchanged when it contains no colon, and
  otherwise the part before its first colon, so that the bracketed IPv6 address
  \<^verbatim>\<open>[::1]:8080\<close> gives \<^verbatim>\<open>[\<close>. The request variant of \<^verbatim>\<open>Wait\<close> looks the map up
  and stores into it under this string.
\<close>

theorem ip4_client:
  "(CHR '':'' \<notin> set (RemoteAddr r) \<longrightarrow> ip4 r = RemoteAddr r) \<and>
   (CHR '':'' \<in> set (RemoteAddr r) \<longrightarrow>
      ip4 r = takeWhile (\<lambda>x. x \<noteq> CHR '':'') (RemoteAddr r)) \<and>
   ip4 \<lparr>RemoteAddr = ''[::1]:8080''\<rparr> = ''['' \<and>
   client_of (WaitRequest r) = ip4 r \<and>
   wait_step (WaitRequest r) Lookup w =
     (case tokenChans (thr w) (ip4 r) of Some ch \<Rightarrow> Some (Unlock ch, w) | None \<Rightarrow> Some (Make, w)) \<and>
   wait_step (WaitRequest r) (Store ch) w =
     Some (Unlock ch, w\<lparr>thr := (thr w)\<lparr>tokenChans := (tokenChans (thr w))(ip4 r \<mapsto> ch)\<rparr>\<rparr>)"
  by (auto simp: ip4_takeWhile takeWhile_eq_all_conv client_of_def)

theorem ip4_client_witness:
  "ip4 \<lparr>RemoteAddr = ''10.0.0.7''\<rparr> = ''10.0.0.7'' \<and>
   ip4 \<lparr>RemoteAddr = ''10.0.0.7:5113''\<rparr> = ''10.0.0.7''"
  using ip4_client [of "\<lparr>RemoteAddr = ''10.0.0.7''\<rparr>"]
    ip4_client [of "\<lparr>RemoteAddr = ''10.0.0.7:5113''\<rparr>"]
  by simp

end
